theory Spec2Isabelle
  imports Main "HOL-Library.Multiset"
begin

section \<open>The acyclicity checker of \<^verbatim>\<open>dag_checker.py\<close>\<close>

subsection \<open>Errors and dictionaries\<close>

text \<open>
  The ways in which the checker can raise: a dictionary lookup of a missing key (carrying
  the key), a list subscript out of range, and an operation on an object that is not the
  list the type annotations promise.
\<close>

datatype error = KeyError string | IndexError | TypeError

text \<open>Commit identifiers are Python strings; a declaration is a pair \<^verbatim>\<open>(id, parents)\<close>.\<close>

type_synonym commit = "string \<times> string list"

text \<open>
  A Python \<^verbatim>\<open>dict\<close> iterates in first-insertion order, and an assignment to an existing
  key keeps the key's position. It is modelled as an association list with distinct keys:
  \<open>dict_set\<close> is \<^verbatim>\<open>d[k] = v\<close> and \<open>dict_get\<close> is the read \<^verbatim>\<open>d[k]\<close>.
\<close>

fun dict_set :: "'k \<Rightarrow> 'v \<Rightarrow> ('k \<times> 'v) list \<Rightarrow> ('k \<times> 'v) list" where
  "dict_set k v [] = [(k, v)]"
| "dict_set k v ((k', v') # d) = (if k' = k then (k', v) # d else (k', v') # dict_set k v d)"

fun dict_get :: "(string \<times> 'v) list \<Rightarrow> string \<Rightarrow> error + 'v" where
  "dict_get [] k = Inl (KeyError k)"
| "dict_get ((k', v') # d) k = (if k' = k then Inr v' else dict_get d k)"

subsection \<open>Construction of the graph\<close>

text \<open>Lines 5-7: the loop that fills \<^verbatim>\<open>parent_map\<close>, later declarations overwriting.\<close>

fun build_parent_map :: "commit list \<Rightarrow> (string \<times> string list) list \<Rightarrow> (string \<times> string list) list" where
  "build_parent_map [] parent_map = parent_map"
| "build_parent_map ((commit_id, parents) # rest) parent_map =
     build_parent_map rest (dict_set commit_id parents parent_map)"

text \<open>Lines 12-14: the loop over \<^verbatim>\<open>enumerate(parent_map.keys())\<close>.\<close>

fun build_index :: "string list \<Rightarrow> nat \<Rightarrow> (string \<times> nat) list \<Rightarrow> (string \<times> nat) list" where
  "build_index [] idx id_to_index = id_to_index"
| "build_index (cid # rest) idx id_to_index =
     build_index rest (Suc idx) (dict_set cid idx id_to_index)"

text \<open>Lines 22-25: the inner loop over the parents of one commit.\<close>

fun add_parents ::
  "(string \<times> nat) list \<Rightarrow> nat \<Rightarrow> string list \<Rightarrow> nat list list \<Rightarrow> int list
    \<Rightarrow> error + (nat list list \<times> int list)" where
  "add_parents id_to_index u [] adj in_degree = Inr (adj, in_degree)"
| "add_parents id_to_index u (pid # rest) adj in_degree =
     (case dict_get id_to_index pid of
        Inl e \<Rightarrow> Inl e
      | Inr v \<Rightarrow>
          if u < length adj \<and> v < length in_degree then
            add_parents id_to_index u rest
              (adj[u := adj ! u @ [v]]) (in_degree[v := in_degree ! v + 1])
          else Inl IndexError)"

text \<open>Lines 20-25: the loop over \<^verbatim>\<open>parent_map.items()\<close>.\<close>

fun add_edges ::
  "(string \<times> nat) list \<Rightarrow> (string \<times> string list) list \<Rightarrow> nat list list \<Rightarrow> int list
    \<Rightarrow> error + (nat list list \<times> int list)" where
  "add_edges id_to_index [] adj in_degree = Inr (adj, in_degree)"
| "add_edges id_to_index ((cid, parents) # rest) adj in_degree =
     (case dict_get id_to_index cid of
        Inl e \<Rightarrow> Inl e
      | Inr u \<Rightarrow>
          (case add_parents id_to_index u parents adj in_degree of
             Inl e \<Rightarrow> Inl e
           | Inr (adj', in_degree') \<Rightarrow> add_edges id_to_index rest adj' in_degree'))"

subsection \<open>Kahn's algorithm\<close>

text \<open>Lines 27-30: the queue starts with the nodes of in-degree zero, in index order.\<close>

definition seed_queue :: "nat \<Rightarrow> int list \<Rightarrow> nat list" where
  "seed_queue n in_degree = filter (\<lambda>idx. in_degree ! idx = 0) [0..<n]"

text \<open>Lines 36-39: the loop over the neighbours of the node taken from the queue.\<close>

fun relax :: "nat list \<Rightarrow> int list \<Rightarrow> nat list \<Rightarrow> error + (int list \<times> nat list)" where
  "relax [] in_degree queue = Inr (in_degree, queue)"
| "relax (neighbor # rest) in_degree queue =
     (if neighbor < length in_degree then
        (let in_degree' = in_degree[neighbor := in_degree ! neighbor - 1] in
         relax rest in_degree'
           (if in_degree' ! neighbor = 0 then queue @ [neighbor] else queue))
      else Inl IndexError)"

lemma relax_measure:
  "relax ns in_degree queue = Inr (in_degree', queue') \<Longrightarrow>
     length queue' + sum_list (map nat in_degree') \<le> length queue + sum_list (map nat in_degree)"
proof (induction ns arbitrary: in_degree queue)
  case Nil
  then show ?case by simp
next
  case (Cons v ns)
  from Cons.prems have v: "v < length in_degree"
    by (auto split: if_splits)
  let ?d = "in_degree[v := in_degree ! v - 1]"
  let ?q = "if ?d ! v = 0 then queue @ [v] else queue"
  from Cons.prems v have "relax ns ?d ?q = Inr (in_degree', queue')"
    by (simp add: Let_def)
  from Cons.IH [OF this]
  have le: "length queue' + sum_list (map nat in_degree') \<le> length ?q + sum_list (map nat ?d)" .
  have upd: "sum_list (map nat ?d) + nat (in_degree ! v)
               = sum_list (map nat in_degree) + nat (in_degree ! v - 1)"
  proof -
    have "nat (in_degree ! v) \<in> set (map nat in_degree)"
      using v by simp
    then have "nat (in_degree ! v) \<le> sum_list (map nat in_degree)"
      by (simp add: member_le_sum_list)
    then show ?thesis
      using v by (simp add: map_update sum_list_update)
  qed
  show ?case
  proof (cases "?d ! v = 0")
    case True
    with v have "in_degree ! v = 1" by simp
    with upd le True show ?thesis by simp
  next
    case False
    have "nat (in_degree ! v - 1) \<le> nat (in_degree ! v)" by simp
    with upd le False show ?thesis by simp
  qed
qed

text \<open>Lines 33-39: the work-queue loop; its value is \<^verbatim>\<open>visited_count\<close> at the exit.\<close>

function kahn_loop :: "nat list list \<Rightarrow> nat list \<Rightarrow> int list \<Rightarrow> nat \<Rightarrow> error + nat" where
  "kahn_loop adj [] in_degree visited_count = Inr visited_count"
| "kahn_loop adj (node # queue) in_degree visited_count =
     (if node < length adj then
        (case relax (adj ! node) in_degree queue of
           Inl e \<Rightarrow> Inl e
         | Inr (in_degree', queue') \<Rightarrow> kahn_loop adj queue' in_degree' (visited_count + 1))
      else Inl IndexError)"
  by pat_completeness auto
termination
proof (relation "measure (\<lambda>(adj, queue, in_degree, visited_count).
                   length queue + sum_list (map nat in_degree))")
  show "wf (measure (\<lambda>(adj, queue, in_degree, visited_count).
                   length queue + sum_list (map nat in_degree)))"
    by simp
next
  fix adj :: "nat list list" and node queue in_degree and visited_count :: nat
    and x2 :: "int list \<times> nat list" and in_degree' queue'
  assume "relax (adj ! node) in_degree queue = Inr x2"
    and "(in_degree', queue') = x2"
  then have "relax (adj ! node) in_degree queue = Inr (in_degree', queue')"
    by simp
  from relax_measure [OF this]
  show "((adj, queue', in_degree', visited_count + 1), (adj, node # queue, in_degree, visited_count))
          \<in> measure (\<lambda>(adj, queue, in_degree, visited_count).
                   length queue + sum_list (map nat in_degree))"
    by simp
qed

subsection \<open>The checker\<close>

text \<open>
  Lines 12-25: the index map, the empty adjacency and in-degree lists, and the edges. The
  result is \<^verbatim>\<open>n\<close>, \<^verbatim>\<open>adj\<close> and \<^verbatim>\<open>in_degree\<close> as they stand at line 26.
\<close>

definition build_graph ::
  "(string \<times> string list) list \<Rightarrow> error + (nat \<times> nat list list \<times> int list)" where
  "build_graph parent_map =
     (let id_to_index = build_index (map fst parent_map) 0 [];
          n = length id_to_index
      in case add_edges id_to_index parent_map (replicate n []) (replicate n 0) of
           Inl e \<Rightarrow> Inl e
         | Inr (adj, in_degree) \<Rightarrow> Inr (n, adj, in_degree))"

definition is_acyclic :: "commit list \<Rightarrow> error + bool" where
  "is_acyclic commit_list =
     (let parent_map = build_parent_map commit_list [] in
      if parent_map = [] then Inr True
      else
        case build_graph parent_map of
          Inl e \<Rightarrow> Inl e
        | Inr (n, adj, in_degree) \<Rightarrow>
            (case kahn_loop adj (seed_queue n in_degree) in_degree 0 of
               Inl e \<Rightarrow> Inl e
             | Inr visited_count \<Rightarrow> Inr (visited_count = n)))"

subsection \<open>The checker over a store\<close>

text \<open>
  Python lists are mutable objects, and the argument of the checker is a reference to a
  list of tuples, each holding an identifier and a reference to the list of its parents.
  To speak of what a call changes, the checker is modelled a second time over a store of
  list objects: an address is a position in the store, and an allocation appends. The
  dictionaries and the queue are created by the call and hold no reference to a list other
  than those stored in them, so they stay values; \<^verbatim>\<open>parent_map\<close> maps an identifier to
  the address of a list. Every function returns the store it leaves, also when it raises.
\<close>

type_synonym addr = nat

datatype obj =
    DeclList "(string \<times> addr) list"
  | StrList "string list"
  | NatList "nat list"
  | IntList "int list"

type_synonym heap = "obj list"

definition alloc :: "obj \<Rightarrow> heap \<Rightarrow> addr \<times> heap" where
  "alloc ob h = (length h, h @ [ob])"

text \<open>
  Reading a list of the expected kind at an address; the store is untyped, so a read
  fails where no such list is.
\<close>

definition get_decls :: "heap \<Rightarrow> addr \<Rightarrow> error + (string \<times> addr) list" where
  "get_decls h a =
     (if a < length h then (case h ! a of DeclList ds \<Rightarrow> Inr ds | _ \<Rightarrow> Inl TypeError)
      else Inl TypeError)"

definition get_strs :: "heap \<Rightarrow> addr \<Rightarrow> error + string list" where
  "get_strs h a =
     (if a < length h then (case h ! a of StrList xs \<Rightarrow> Inr xs | _ \<Rightarrow> Inl TypeError)
      else Inl TypeError)"

definition get_nats :: "heap \<Rightarrow> addr \<Rightarrow> error + nat list" where
  "get_nats h a =
     (if a < length h then (case h ! a of NatList xs \<Rightarrow> Inr xs | _ \<Rightarrow> Inl TypeError)
      else Inl TypeError)"

definition get_ints :: "heap \<Rightarrow> addr \<Rightarrow> error + int list" where
  "get_ints h a =
     (if a < length h then (case h ! a of IntList xs \<Rightarrow> Inr xs | _ \<Rightarrow> Inl TypeError)
      else Inl TypeError)"

text \<open>Lines 5-7, with the copy of line 7 as an allocation.\<close>

fun build_parent_map_h ::
  "(string \<times> addr) list \<Rightarrow> (string \<times> addr) list \<Rightarrow> heap
    \<Rightarrow> (error + (string \<times> addr) list) \<times> heap" where
  "build_parent_map_h [] parent_map h = (Inr parent_map, h)"
| "build_parent_map_h ((commit_id, parents) # rest) parent_map h =
     (case get_strs h parents of
        Inl e \<Rightarrow> (Inl e, h)
      | Inr ps \<Rightarrow>
          (case alloc (StrList ps) h of
             (copy, h') \<Rightarrow> build_parent_map_h rest (dict_set commit_id copy parent_map) h'))"

text \<open>Line 17: one new empty list per node.\<close>

fun alloc_lists :: "nat \<Rightarrow> heap \<Rightarrow> addr list \<times> heap" where
  "alloc_lists 0 h = ([], h)"
| "alloc_lists (Suc n) h =
     (case alloc (NatList []) h of
        (a, h') \<Rightarrow> (case alloc_lists n h' of (as, h'') \<Rightarrow> (a # as, h'')))"

text \<open>Lines 22-25 and 20-25: \<^verbatim>\<open>append\<close> and \<^verbatim>\<open>+=\<close> write to the store.\<close>

fun add_parents_h ::
  "(string \<times> nat) list \<Rightarrow> nat \<Rightarrow> string list \<Rightarrow> addr list \<Rightarrow> addr \<Rightarrow> heap
    \<Rightarrow> (error + unit) \<times> heap" where
  "add_parents_h id_to_index u [] adj in_degree h = (Inr (), h)"
| "add_parents_h id_to_index u (pid # rest) adj in_degree h =
     (case dict_get id_to_index pid of
        Inl e \<Rightarrow> (Inl e, h)
      | Inr v \<Rightarrow>
          if u < length adj then
            (case get_nats h (adj ! u) of
               Inl e \<Rightarrow> (Inl e, h)
             | Inr ns \<Rightarrow>
                 (let h' = h[adj ! u := NatList (ns @ [v])] in
                  case get_ints h' in_degree of
                    Inl e \<Rightarrow> (Inl e, h')
                  | Inr ds \<Rightarrow>
                      if v < length ds then
                        add_parents_h id_to_index u rest adj in_degree
                          (h'[in_degree := IntList (ds[v := ds ! v + 1])])
                      else (Inl IndexError, h')))
          else (Inl IndexError, h))"

fun add_edges_h ::
  "(string \<times> nat) list \<Rightarrow> (string \<times> addr) list \<Rightarrow> addr list \<Rightarrow> addr \<Rightarrow> heap
    \<Rightarrow> (error + unit) \<times> heap" where
  "add_edges_h id_to_index [] adj in_degree h = (Inr (), h)"
| "add_edges_h id_to_index ((cid, parents) # rest) adj in_degree h =
     (case dict_get id_to_index cid of
        Inl e \<Rightarrow> (Inl e, h)
      | Inr u \<Rightarrow>
          (case get_strs h parents of
             Inl e \<Rightarrow> (Inl e, h)
           | Inr ps \<Rightarrow>
               (case add_parents_h id_to_index u ps adj in_degree h of
                  (Inl e, h') \<Rightarrow> (Inl e, h')
                | (Inr _, h') \<Rightarrow> add_edges_h id_to_index rest adj in_degree h')))"

text \<open>Lines 27-30 and 36-39.\<close>

definition seed_queue_h :: "nat \<Rightarrow> addr \<Rightarrow> heap \<Rightarrow> error + nat list" where
  "seed_queue_h n in_degree h =
     (case get_ints h in_degree of
        Inl e \<Rightarrow> Inl e
      | Inr ds \<Rightarrow> Inr (seed_queue n ds))"

fun relax_h :: "nat list \<Rightarrow> addr \<Rightarrow> nat list \<Rightarrow> heap \<Rightarrow> (error + nat list) \<times> heap" where
  "relax_h [] in_degree queue h = (Inr queue, h)"
| "relax_h (neighbor # rest) in_degree queue h =
     (case get_ints h in_degree of
        Inl e \<Rightarrow> (Inl e, h)
      | Inr ds \<Rightarrow>
          if neighbor < length ds then
            (let ds' = ds[neighbor := ds ! neighbor - 1] in
             relax_h rest in_degree
               (if ds' ! neighbor = 0 then queue @ [neighbor] else queue)
               (h[in_degree := IntList ds']))
          else (Inl IndexError, h))"

text \<open>The sum of the positive entries of the in-degree list at an address.\<close>

definition weight :: "heap \<Rightarrow> addr \<Rightarrow> nat" where
  "weight h a = (case get_ints h a of Inl e \<Rightarrow> 0 | Inr ds \<Rightarrow> sum_list (map nat ds))"

lemma get_ints_update:
  "get_ints h a = Inr ds \<Longrightarrow> get_ints (h[a := IntList ds']) a = Inr ds'"
  by (auto simp: get_ints_def split: if_splits)

lemma sum_nat_decrement:
  assumes v: "v < length ds"
  shows "sum_list (map nat (ds[v := ds ! v - 1])) + (if ds ! v = 1 then 1 else 0)
           \<le> sum_list (map nat ds)"
proof -
  have "nat (ds ! v) \<in> set (map nat ds)" using v by simp
  then have "nat (ds ! v) \<le> sum_list (map nat ds)" by (simp add: member_le_sum_list)
  then have "sum_list (map nat (ds[v := ds ! v - 1])) + nat (ds ! v)
               = sum_list (map nat ds) + nat (ds ! v - 1)"
    using v by (simp add: map_update sum_list_update)
  then show ?thesis by (cases "ds ! v = 1") auto
qed

lemma relax_h_measure:
  "relax_h ns a queue h = (Inr queue', h') \<Longrightarrow>
     length queue' + weight h' a \<le> length queue + weight h a"
proof (induction ns arbitrary: queue h)
  case Nil
  then show ?case by simp
next
  case (Cons v ns)
  from Cons.prems obtain ds where g: "get_ints h a = Inr ds" and v: "v < length ds"
    by (auto split: sum.splits if_splits)
  define ds' where "ds' = ds[v := ds ! v - 1]"
  define q1 where "q1 = (if ds' ! v = 0 then queue @ [v] else queue)"
  from Cons.prems g v have "relax_h ns a q1 (h[a := IntList ds']) = (Inr queue', h')"
    by (simp add: Let_def ds'_def q1_def)
  from Cons.IH [OF this]
  have "length queue' + weight h' a \<le> length q1 + weight (h[a := IntList ds']) a" .
  also have "weight (h[a := IntList ds']) a = sum_list (map nat ds')"
    using get_ints_update [OF g] by (simp add: weight_def)
  also have "length q1 + sum_list (map nat ds') \<le> length queue + sum_list (map nat ds)"
    using sum_nat_decrement [OF v] v by (auto simp: q1_def ds'_def)
  also have "sum_list (map nat ds) = weight h a" using g by (simp add: weight_def)
  finally show ?case by simp
qed

text \<open>Lines 33-39 over the store.\<close>

function kahn_loop_h ::
  "addr list \<Rightarrow> nat list \<Rightarrow> addr \<Rightarrow> nat \<Rightarrow> heap \<Rightarrow> (error + nat) \<times> heap" where
  "kahn_loop_h adj [] in_degree visited_count h = (Inr visited_count, h)"
| "kahn_loop_h adj (node # queue) in_degree visited_count h =
     (if node < length adj then
        (case get_nats h (adj ! node) of
           Inl e \<Rightarrow> (Inl e, h)
         | Inr ns \<Rightarrow>
             (case relax_h ns in_degree queue h of
                (Inl e, h') \<Rightarrow> (Inl e, h')
              | (Inr queue', h') \<Rightarrow>
                  kahn_loop_h adj queue' in_degree (visited_count + 1) h'))
      else (Inl IndexError, h))"
  by pat_completeness auto
termination
proof (relation "measure (\<lambda>(adj, queue, in_degree, visited_count, h).
                   length queue + weight h in_degree)", goal_cases)
  case 1
  show ?case by simp
next
  case (2 adj node queue in_degree visited_count h ns x h' queue')
  from 2(3,4) have "relax_h ns in_degree queue h = (Inr queue', h')" by simp
  from relax_h_measure [OF this] show ?case by simp
qed

text \<open>Lines 4-41 over the store.\<close>

definition is_acyclic_h :: "addr \<Rightarrow> heap \<Rightarrow> (error + bool) \<times> heap" where
  "is_acyclic_h commit_list h =
     (case get_decls h commit_list of
        Inl e \<Rightarrow> (Inl e, h)
      | Inr decls \<Rightarrow>
          (case build_parent_map_h decls [] h of
             (Inl e, h1) \<Rightarrow> (Inl e, h1)
           | (Inr parent_map, h1) \<Rightarrow>
               if parent_map = [] then (Inr True, h1)
               else
                 let id_to_index = build_index (map fst parent_map) 0 [];
                     n = length id_to_index
                 in case alloc_lists n h1 of
                      (adj, h2) \<Rightarrow>
                        (case alloc (IntList (replicate n 0)) h2 of
                           (in_degree, h3) \<Rightarrow>
                             (case add_edges_h id_to_index parent_map adj in_degree h3 of
                                (Inl e, h4) \<Rightarrow> (Inl e, h4)
                              | (Inr _, h4) \<Rightarrow>
                                  (case seed_queue_h n in_degree h4 of
                                     Inl e \<Rightarrow> (Inl e, h4)
                                   | Inr queue \<Rightarrow>
                                       (case kahn_loop_h adj queue in_degree 0 h4 of
                                          (Inl e, h5) \<Rightarrow> (Inl e, h5)
                                        | (Inr visited_count, h5) \<Rightarrow>
                                            (Inr (visited_count = n), h5)))))))"

section \<open>The graph of a declaration sequence\<close>

text \<open>
  The graph the specification speaks of, stated over identifiers and independently of the
  code: the effective parent list of an identifier is the one of its last declaration in
  the sequence, the nodes are the declared identifiers, and there is an edge from each
  declared identifier to each of its effective parents.
\<close>

definition effective_parents :: "commit list \<Rightarrow> string \<Rightarrow> string list option" where
  "effective_parents commit_list = map_of (rev commit_list)"

definition decl_edges :: "commit list \<Rightarrow> (string \<times> string) set" where
  "decl_edges commit_list =
     {(c, p). \<exists>ps. effective_parents commit_list c = Some ps \<and> p \<in> set ps}"

definition declared :: "commit list \<Rightarrow> string set" where
  "declared commit_list = fst ` set commit_list"

text \<open>The effective parents that are not declared identifiers.\<close>

definition dangling :: "commit list \<Rightarrow> string set" where
  "dangling commit_list = snd ` decl_edges commit_list - declared commit_list"

text \<open>
  The sequence with every declaration removed that a later declaration of the same
  identifier supersedes.
\<close>

fun remove_non_final :: "commit list \<Rightarrow> commit list" where
  "remove_non_final [] = []"
| "remove_non_final ((c, ps) # rest) =
     (if c \<in> declared rest then remove_non_final rest else (c, ps) # remove_non_final rest)"

text \<open>
  A chain over the identifiers \<open>xs\<close>: the first is a root, and every other one declares
  the one before it as its only parent. Closing the cycle redirects the parent list of the
  root to the last identifier.
\<close>

definition chain :: "string list \<Rightarrow> commit list" where
  "chain xs = zip xs ([] # map (\<lambda>p. [p]) xs)"

definition close_cycle :: "string list \<Rightarrow> commit list" where
  "close_cycle xs = (chain xs)[0 := (hd xs, [last xs])]"

section \<open>Notions used in the proofs\<close>

text \<open>
  The edge relation of an adjacency list, and the number of edges (with multiplicity) that
  enter \<open>v\<close> from the nodes of \<open>U\<close>.
\<close>

definition edges :: "nat list list \<Rightarrow> (nat \<times> nat) set" where
  "edges adj = {(u, v). u < length adj \<and> v \<in> set (adj ! u)}"

definition indeg_from :: "nat list list \<Rightarrow> nat set \<Rightarrow> nat \<Rightarrow> nat" where
  "indeg_from adj U v = (\<Sum>u\<in>U. count_list (adj ! u) v)"

text \<open>
  What lines 17-25 establish: both lists have one entry per node, every neighbour is a
  node, and \<^verbatim>\<open>in_degree\<close> counts the entering edges.
\<close>

definition graph_ok :: "nat list list \<Rightarrow> int list \<Rightarrow> bool" where
  "graph_ok adj in_degree \<longleftrightarrow>
     length in_degree = length adj \<and>
     (\<forall>u<length adj. set (adj ! u) \<subseteq> {..<length adj}) \<and>
     (\<forall>v<length adj. in_degree ! v = int (indeg_from adj {..<length adj} v))"

text \<open>
  The invariant of the work-queue loop, with the set \<open>V\<close> of the nodes already taken
  from the queue: the queue holds no node twice and none of \<open>V\<close>; \<^verbatim>\<open>in_degree\<close>
  counts the edges that enter from nodes not yet taken; the nodes of in-degree zero are
  those in the queue or in \<open>V\<close>; and none of them lies on a cycle.
\<close>

definition kahn_inv :: "nat list list \<Rightarrow> nat set \<Rightarrow> nat list \<Rightarrow> int list \<Rightarrow> nat \<Rightarrow> bool" where
  "kahn_inv adj V queue in_degree visited_count \<longleftrightarrow>
     length in_degree = length adj \<and>
     (\<forall>u<length adj. set (adj ! u) \<subseteq> {..<length adj}) \<and>
     V \<subseteq> {..<length adj} \<and> set queue \<subseteq> {..<length adj} \<and>
     distinct queue \<and> set queue \<inter> V = {} \<and>
     visited_count = card V \<and>
     (\<forall>v<length adj. in_degree ! v = int (indeg_from adj ({..<length adj} - V) v)) \<and>
     (\<forall>v<length adj. v \<in> set queue \<union> V \<longleftrightarrow> in_degree ! v = 0) \<and>
     (\<forall>v\<in>set queue \<union> V. (v, v) \<notin> (edges adj)\<^sup>+)"

text \<open>
  The work-queue loop with a budget of iterations: it is the loop of lines 33-39, and is
  \<open>None\<close> when the budget is used up while the queue still holds a node.
\<close>

fun kahn_loop_bounded ::
  "nat \<Rightarrow> nat list list \<Rightarrow> nat list \<Rightarrow> int list \<Rightarrow> nat \<Rightarrow> (error + nat) option" where
  "kahn_loop_bounded fuel adj [] in_degree visited_count = Some (Inr visited_count)"
| "kahn_loop_bounded 0 adj (node # queue) in_degree visited_count = None"
| "kahn_loop_bounded (Suc fuel) adj (node # queue) in_degree visited_count =
     (if node < length adj then
        (case relax (adj ! node) in_degree queue of
           Inl e \<Rightarrow> Some (Inl e)
         | Inr (in_degree', queue') \<Rightarrow>
             kahn_loop_bounded fuel adj queue' in_degree' (visited_count + 1))
      else Some (Inl IndexError))"

text \<open>
  For the store: a call leaves the first \<open>L\<close> objects as they were; a list of pairs of
  identifiers and addresses denotes a list of declarations; the lists at the addresses
  \<open>adj_a\<close> and \<open>deg_a\<close> hold an adjacency list and an in-degree list.
\<close>

definition frame :: "nat \<Rightarrow> heap \<Rightarrow> heap \<Rightarrow> bool" where
  "frame L h h' \<longleftrightarrow> length h \<le> length h' \<and> take L h' = take L h"

definition denotes :: "heap \<Rightarrow> (string \<times> addr) list \<Rightarrow> (string \<times> string list) list \<Rightarrow> bool" where
  "denotes h ds cl \<longleftrightarrow>
     list_all2 (\<lambda>d d'. fst d = fst d' \<and> get_strs h (snd d) = Inr (snd d')) ds cl"

definition graph_at :: "heap \<Rightarrow> addr list \<Rightarrow> addr \<Rightarrow> nat list list \<Rightarrow> int list \<Rightarrow> bool" where
  "graph_at h adj_a deg_a adj deg \<longleftrightarrow>
     list_all2 (\<lambda>a ns. get_nats h a = Inr ns) adj_a adj \<and> get_ints h deg_a = Inr deg \<and>
     distinct adj_a \<and> deg_a \<notin> set adj_a"

text \<open>The index of a declared identifier, and the edges of the items of a parent map.\<close>

definition index_of :: "(string \<times> nat) list \<Rightarrow> string \<Rightarrow> nat" where
  "index_of id_to_index k = the (map_of id_to_index k)"

definition index_edges ::
  "(string \<times> nat) list \<Rightarrow> (string \<times> string list) list \<Rightarrow> (nat \<times> nat) set" where
  "index_edges ix items =
     {(index_of ix c, index_of ix p) | c ps p. (c, ps) \<in> set items \<and> p \<in> set ps}"

section \<open>Lemmas\<close>

subsection \<open>The loop over the neighbours\<close>

lemma relax_spec:
  assumes "set ns \<subseteq> {..<length deg}"
    and "\<forall>v\<in>set ns. int (count_list ns v) \<le> deg ! v"
  shows "\<exists>deg' new. relax ns deg q = Inr (deg', q @ new) \<and> length deg' = length deg \<and>
           (\<forall>v<length deg. deg' ! v = deg ! v - int (count_list ns v)) \<and>
           distinct new \<and> (\<forall>w. w \<in> set new \<longleftrightarrow> w \<in> set ns \<and> deg ! w = int (count_list ns w))"
  using assms
proof (induction ns arbitrary: deg q)
  case Nil
  then show ?case by simp
next
  case (Cons v ns)
  define d where "d = deg[v := deg ! v - 1]"
  define q1 where "q1 = (if d ! v = 0 then q @ [v] else q)"
  from Cons.prems have v: "v < length deg" by simp
  have dv: "d ! v = deg ! v - 1" and ld: "length d = length deg"
    using v by (simp_all add: d_def)
  have dw: "d ! w = deg ! w" if "w \<noteq> v" for w
    using that by (simp add: d_def)
  have p1: "set ns \<subseteq> {..<length d}" using Cons.prems ld by simp
  have p2: "\<forall>w\<in>set ns. int (count_list ns w) \<le> d ! w"
  proof
    fix w assume w: "w \<in> set ns"
    with Cons.prems(2) have "int (count_list (v # ns) w) \<le> deg ! w" by simp
    then show "int (count_list ns w) \<le> d ! w"
      by (cases "w = v") (simp_all add: dv dw)
  qed
  from Cons.IH [OF p1 p2, of q1] obtain deg' new where
    r: "relax ns d q1 = Inr (deg', q1 @ new)" and l: "length deg' = length d"
    and d: "\<And>w. w < length d \<Longrightarrow> deg' ! w = d ! w - int (count_list ns w)"
    and dn: "distinct new"
    and sn: "\<And>w. w \<in> set new \<longleftrightarrow> w \<in> set ns \<and> d ! w = int (count_list ns w)"
    by blast
  have step: "relax (v # ns) deg q = relax ns d q1"
    using v by (simp add: d_def q1_def Let_def)
  have cv: "int (count_list ns v) + 1 \<le> deg ! v" using Cons.prems(2) by simp
  have deg': "\<forall>w<length deg. deg' ! w = deg ! w - int (count_list (v # ns) w)"
  proof (intro allI impI)
    fix w assume "w < length deg"
    then show "deg' ! w = deg ! w - int (count_list (v # ns) w)"
      using d [of w] ld by (cases "w = v") (simp_all add: dv dw)
  qed
  show ?case
  proof (cases "d ! v = 0")
    case True
    then have degv: "deg ! v = 1" using dv by simp
    with cv have nv: "count_list ns v = 0" by simp
    then have vn: "v \<notin> set ns" by (simp add: count_list_0_iff)
    have vnew: "v \<notin> set new" using sn [of v] vn by simp
    have a1: "relax (v # ns) deg q = Inr (deg', q @ (v # new))"
      using r True step by (simp add: q1_def)
    have a2: "distinct (v # new)" using dn vnew by simp
    have a3: "\<forall>w. w \<in> set (v # new) \<longleftrightarrow>
                     w \<in> set (v # ns) \<and> deg ! w = int (count_list (v # ns) w)"
    proof
      fix w show "w \<in> set (v # new) \<longleftrightarrow>
                     w \<in> set (v # ns) \<and> deg ! w = int (count_list (v # ns) w)"
        using sn [of w] degv nv by (cases "w = v") (simp_all add: dw)
    qed
    have a4: "length deg' = length deg" using l ld by simp
    show ?thesis
      by (rule exI [of _ deg'], rule exI [of _ "v # new"]) (intro conjI a1 a2 a3 a4 deg')
  next
    case False
    have a1: "relax (v # ns) deg q = Inr (deg', q @ new)"
      using r False step by (simp add: q1_def)
    have a3: "\<forall>w. w \<in> set new \<longleftrightarrow>
                     w \<in> set (v # ns) \<and> deg ! w = int (count_list (v # ns) w)"
    proof
      fix w show "w \<in> set new \<longleftrightarrow>
                     w \<in> set (v # ns) \<and> deg ! w = int (count_list (v # ns) w)"
      proof (cases "w = v")
        case True
        have "v \<notin> set ns \<Longrightarrow> count_list ns v = 0" by (simp add: count_list_0_iff)
        then show ?thesis using sn [of v] False dv True by auto
      next
        case False
        then show ?thesis using sn [of w] by (simp add: dw)
      qed
    qed
    have a4: "length deg' = length deg" using l ld by simp
    show ?thesis
      by (rule exI [of _ deg'], rule exI [of _ new]) (intro conjI a1 dn a3 a4 deg')
  qed
qed

subsection \<open>The invariant of the work-queue loop\<close>

lemma kahn_invD:
  assumes "kahn_inv adj V queue deg cnt"
  shows "length deg = length adj"
    and "\<And>u. u < length adj \<Longrightarrow> set (adj ! u) \<subseteq> {..<length adj}"
    and "V \<subseteq> {..<length adj}"
    and "set queue \<subseteq> {..<length adj}"
    and "distinct queue"
    and "set queue \<inter> V = {}"
    and "cnt = card V"
    and "\<And>v. v < length adj \<Longrightarrow> deg ! v = int (indeg_from adj ({..<length adj} - V) v)"
    and "\<And>v. v < length adj \<Longrightarrow> v \<in> set queue \<union> V \<longleftrightarrow> deg ! v = 0"
    and "\<And>v. v \<in> set queue \<union> V \<Longrightarrow> (v, v) \<notin> (edges adj)\<^sup>+"
  using assms unfolding kahn_inv_def by blast+

lemma indeg_from_zero:
  assumes "finite U" and "indeg_from adj U v = 0" and "u \<in> U"
  shows "v \<notin> set (adj ! u)"
proof -
  from assms have "count_list (adj ! u) v = 0"
    by (simp add: indeg_from_def)
  then show ?thesis by (simp add: count_list_0_iff)
qed

lemma indeg_from_insert:
  assumes "finite U" and "u \<notin> U"
  shows "indeg_from adj (insert u U) v = count_list (adj ! u) v + indeg_from adj U v"
  using assms by (simp add: indeg_from_def)

lemma no_cycle_if_preds_clean:
  assumes preds: "\<And>p. (p, w) \<in> r \<Longrightarrow> (p, p) \<notin> r\<^sup>+"
  shows "(w, w) \<notin> r\<^sup>+"
proof
  assume "(w, w) \<in> r\<^sup>+"
  then obtain p where "(w, p) \<in> r\<^sup>*" and pw: "(p, w) \<in> r"
    by (auto dest: tranclD2)
  then have "(p, p) \<in> r\<^sup>+"
    by (simp add: rtrancl_into_trancl2)
  with preds [OF pw] show False by simp
qed

lemma kahn_inv_step:
  assumes inv: "kahn_inv adj V (node # q) deg cnt"
  shows "\<exists>deg' q'. relax (adj ! node) deg q = Inr (deg', q') \<and>
           kahn_inv adj (insert node V) q' deg' (cnt + 1)"
proof -
  define n where "n = length adj"
  note I = kahn_invD [OF inv, folded n_def]
  have node: "node < n" "node \<notin> V" "node \<notin> set q"
    using I(4,5,6) by auto
  have finV: "finite V" using I(3) by (rule finite_subset) simp
  define U' where "U' = {..<n} - insert node V"
  have U: "{..<n} - V = insert node U'" and finU': "finite U'" and nU': "node \<notin> U'"
    using node by (auto simp: U'_def)
  have split: "indeg_from adj ({..<n} - V) v = count_list (adj ! node) v + indeg_from adj U' v" for v
    unfolding U using finU' nU' by (rule indeg_from_insert)
  have p1: "set (adj ! node) \<subseteq> {..<length deg}"
    using I(2) [OF node(1)] I(1) by simp
  have p2: "\<forall>v\<in>set (adj ! node). int (count_list (adj ! node) v) \<le> deg ! v"
  proof
    fix v assume "v \<in> set (adj ! node)"
    with I(2) [OF node(1)] have "v < n" by auto
    from I(8) [OF this] show "int (count_list (adj ! node) v) \<le> deg ! v"
      by (simp add: split)
  qed
  from relax_spec [OF p1 p2, of q] obtain deg' new where
    r: "relax (adj ! node) deg q = Inr (deg', q @ new)" and l: "length deg' = length deg"
    and d: "\<forall>v<length deg. deg' ! v = deg ! v - int (count_list (adj ! node) v)"
    and dn: "distinct new"
    and sn: "\<forall>w. w \<in> set new \<longleftrightarrow>
               w \<in> set (adj ! node) \<and> deg ! w = int (count_list (adj ! node) w)"
    by blast
  have deg': "deg' ! v = int (indeg_from adj U' v)" if "v < n" for v
    using d I(1) I(8) [OF that] that by (simp add: split)
  have new: "w < n \<and> deg ! w \<noteq> 0 \<and> deg' ! w = 0" if "w \<in> set new" for w
  proof -
    from that sn have w: "w \<in> set (adj ! node)" and e: "deg ! w = int (count_list (adj ! node) w)"
      by auto
    from w I(2) [OF node(1)] have wn: "w < n" by auto
    from w have "count_list (adj ! node) w \<noteq> 0" by (simp add: count_list_0_iff)
    with e wn d I(1) show ?thesis by simp
  qed
  have new_fresh: "w \<notin> set (node # q) \<union> V" if "w \<in> set new" for w
    using new [OF that] I(9) [of w] by blast
  have c1: "length deg' = n" using l I(1) by simp
  have c4: "set (q @ new) \<subseteq> {..<n}" using I(4) new by auto
  have c5: "distinct (q @ new)" using I(5) dn new_fresh by auto
  have c6: "set (q @ new) \<inter> insert node V = {}" using I(5,6) new_fresh by auto
  have c3: "insert node V \<subseteq> {..<n}" using I(3) node by simp
  have c7: "cnt + 1 = card (insert node V)" using I(7) finV node by simp
  have c8: "\<forall>v<n. deg' ! v = int (indeg_from adj ({..<n} - insert node V) v)"
    using deg' by (simp add: U'_def)
  have c9: "\<forall>v<n. v \<in> set (q @ new) \<union> insert node V \<longleftrightarrow> deg' ! v = 0"
  proof (intro allI impI)
    fix v assume vn: "v < n"
    have le: "deg' ! v \<le> deg ! v" and ge: "0 \<le> deg' ! v"
      using d vn I(1) deg' [OF vn] by simp_all
    show "v \<in> set (q @ new) \<union> insert node V \<longleftrightarrow> deg' ! v = 0"
    proof
      assume "v \<in> set (q @ new) \<union> insert node V"
      then consider "v \<in> set new" | "v \<in> set (node # q) \<union> V" by auto
      then show "deg' ! v = 0"
      proof cases
        case 1 then show ?thesis using new by simp
      next
        case 2
        with I(9) [OF vn] have "deg ! v = 0" by simp
        with le ge show ?thesis by simp
      qed
    next
      assume z: "deg' ! v = 0"
      show "v \<in> set (q @ new) \<union> insert node V"
      proof (cases "deg ! v = 0")
        case True
        with I(9) [OF vn] show ?thesis by auto
      next
        case False
        with z d vn I(1) have "count_list (adj ! node) v \<noteq> 0" 
          and "deg ! v = int (count_list (adj ! node) v)" by auto
        then have "v \<in> set new" using sn by (simp add: count_list_0_iff)
        then show ?thesis by simp
      qed
    qed
  qed
  have c10: "\<forall>v\<in>set (q @ new) \<union> insert node V. (v, v) \<notin> (edges adj)\<^sup>+"
  proof
    fix v assume "v \<in> set (q @ new) \<union> insert node V"
    then consider "v \<in> set new" | "v \<in> set (node # q) \<union> V" by auto
    then show "(v, v) \<notin> (edges adj)\<^sup>+"
    proof cases
      case 1
      from new [OF 1] have vn: "v < n" and z: "deg' ! v = 0" by simp_all
      with deg' [OF vn] have z': "indeg_from adj U' v = 0" by simp
      show ?thesis
      proof (rule no_cycle_if_preds_clean)
        fix p assume "(p, v) \<in> edges adj"
        then have pn: "p < n" and pv: "v \<in> set (adj ! p)" by (simp_all add: edges_def n_def)
        from indeg_from_zero [OF finU' z'] pv have "p \<notin> U'" by blast
        with pn have "p \<in> set (node # q) \<union> V" by (auto simp: U'_def)
        then show "(p, p) \<notin> (edges adj)\<^sup>+" by (rule I(10))
      qed
    next
      case 2 then show ?thesis by (rule I(10))
    qed
  qed
  have "kahn_inv adj (insert node V) (q @ new) deg' (cnt + 1)"
    unfolding kahn_inv_def n_def [symmetric]
    using c1 I(2) c3 c4 c5 c6 c7 c8 c9 c10 by (intro conjI) simp_all
  with r show ?thesis by blast
qed

lemma kahn_loop_inv:
  "kahn_inv adj V q deg cnt \<Longrightarrow>
     \<exists>V' deg'. kahn_loop adj q deg cnt = Inr (card V') \<and> kahn_inv adj V' [] deg' (card V')"
proof (induction adj q deg cnt arbitrary: V rule: kahn_loop.induct)
  case (1 adj deg cnt)
  from kahn_invD(7) [OF "1.prems"] have "cnt = card V" .
  with "1.prems" show ?case by auto
next
  case (2 adj node queue deg cnt)
  from kahn_invD(4) [OF "2.prems"] have node: "node < length adj" by simp
  from kahn_inv_step [OF "2.prems"] obtain deg' q' where
    r: "relax (adj ! node) deg queue = Inr (deg', q')"
    and inv': "kahn_inv adj (insert node V) q' deg' (cnt + 1)"
    by blast
  from "2.IH" [OF node r refl inv'] obtain V' deg'' where
    "kahn_loop adj q' deg' (cnt + 1) = Inr (card V')" and "kahn_inv adj V' [] deg'' (card V')"
    by blast
  moreover have "kahn_loop adj (node # queue) deg cnt = kahn_loop adj q' deg' (cnt + 1)"
    using node r by simp
  ultimately show ?case by auto
qed

lemma edges_cycle_in_range:
  assumes "(x, x) \<in> (edges adj)\<^sup>+"
  shows "x < length adj"
proof -
  from assms obtain z where "(x, z) \<in> edges adj" by (auto dest: tranclD)
  then show ?thesis by (simp add: edges_def)
qed

lemma kahn_inv_final:
  assumes inv: "kahn_inv adj V [] deg cnt"
  shows "card V = length adj \<longleftrightarrow> acyclic (edges adj)"
proof
  define n where "n = length adj"
  note I = kahn_invD [OF inv, folded n_def]
  {
    assume "card V = length adj"
    then have "card V = card {..<n}" by (simp add: n_def)
    with I(3) have V: "V = {..<n}" by (simp add: card_subset_eq)
    show "acyclic (edges adj)"
      unfolding acyclic_def
    proof (intro allI notI)
      fix x assume c: "(x, x) \<in> (edges adj)\<^sup>+"
      then have "x \<in> set [] \<union> V" using edges_cycle_in_range [OF c] V by (simp add: n_def)
      from I(10) [OF this] c show False by simp
    qed
  }
  {
    assume ac: "acyclic (edges adj)"
    show "card V = length adj"
    proof (rule ccontr)
      assume ne: "card V \<noteq> length adj"
      define U where "U = {..<n} - V"
      define r where "r = edges adj \<inter> U \<times> U"
      have finU: "finite U" by (simp add: U_def)
      have "V \<noteq> {..<n}" using ne by (auto simp: n_def)
      with I(3) obtain u0 where u0: "u0 \<in> U" by (auto simp: U_def)
      have "finite r" using finU by (simp add: r_def)
      moreover have "acyclic r" using ac by (rule acyclic_subset) (simp add: r_def)
      ultimately have "wf r" by (rule finite_acyclic_wf)
      from wfE_min [OF this u0] obtain z where z: "z \<in> U" and
        zmin: "\<And>y. (y, z) \<in> r \<Longrightarrow> y \<notin> U" by blast
      from z have zn: "z < n" and zV: "z \<notin> set [] \<union> V" by (simp_all add: U_def)
      with I(9) [OF zn] have "deg ! z \<noteq> 0" by blast
      with I(8) [OF zn] have "indeg_from adj U z \<noteq> 0" by (simp add: U_def)
      then obtain u where u: "u \<in> U" and "count_list (adj ! u) z \<noteq> 0"
        unfolding indeg_from_def using finU by auto
      then have "z \<in> set (adj ! u)" by (simp add: count_list_0_iff)
      moreover from u have "u < length adj" by (simp add: U_def n_def)
      ultimately have "(u, z) \<in> r" using u z by (simp add: r_def edges_def)
      from zmin [OF this] u show False by simp
    qed
  }
qed

lemma kahn_inv_init:
  assumes len: "length deg = length adj"
    and rng: "\<forall>u<length adj. set (adj ! u) \<subseteq> {..<length adj}"
    and deg: "\<forall>v<length adj. deg ! v = int (indeg_from adj {..<length adj} v)"
  shows "kahn_inv adj {} (seed_queue (length adj) deg) deg 0"
proof -
  have nc: "\<forall>v\<in>set (seed_queue (length adj) deg) \<union> {}. (v, v) \<notin> (edges adj)\<^sup>+"
  proof
    fix v assume "v \<in> set (seed_queue (length adj) deg) \<union> {}"
    then have vn: "v < length adj" and "deg ! v = 0" by (simp_all add: seed_queue_def)
    with deg have z: "indeg_from adj {..<length adj} v = 0" by simp
    show "(v, v) \<notin> (edges adj)\<^sup>+"
    proof (rule no_cycle_if_preds_clean)
      fix p assume "(p, v) \<in> edges adj"
      then have "p \<in> {..<length adj}" and "v \<in> set (adj ! p)" by (simp_all add: edges_def)
      with indeg_from_zero [OF _ z, of p] show "(p, p) \<notin> (edges adj)\<^sup>+" by simp
    qed
  qed
  show ?thesis
    unfolding kahn_inv_def
    using len rng deg nc by (intro conjI) (auto simp: seed_queue_def)
qed

lemma kahn_loop_correct:
  assumes len: "length deg = length adj"
    and rng: "\<forall>u<length adj. set (adj ! u) \<subseteq> {..<length adj}"
    and deg: "\<forall>v<length adj. deg ! v = int (indeg_from adj {..<length adj} v)"
  shows "\<exists>cnt. kahn_loop adj (seed_queue (length adj) deg) deg 0 = Inr cnt \<and> cnt \<le> length adj \<and>
           (cnt = length adj \<longleftrightarrow> acyclic (edges adj))"
proof -
  from kahn_loop_inv [OF kahn_inv_init [OF assms]] obtain V deg' where
    k: "kahn_loop adj (seed_queue (length adj) deg) deg 0 = Inr (card V)"
    and inv: "kahn_inv adj V [] deg' (card V)" by blast
  from kahn_invD(3) [OF inv] have "card V \<le> card {..<length adj}"
    by (intro card_mono) simp_all
  then have "card V \<le> length adj" by simp
  with k kahn_inv_final [OF inv] show ?thesis by simp
qed

subsection \<open>Dictionaries and the index map\<close>

lemma dict_get_map_of:
  "dict_get d k = (case map_of d k of None \<Rightarrow> Inl (KeyError k) | Some v \<Rightarrow> Inr v)"
  by (induction d) auto

lemma map_of_dict_set: "map_of (dict_set k v d) = (map_of d)(k \<mapsto> v)"
  by (induction d) (auto simp: fun_eq_iff)

lemma dict_set_fresh: "k \<notin> fst ` set d \<Longrightarrow> dict_set k v d = d @ [(k, v)]"
  by (induction d) auto

lemma keys_dict_set:
  "map fst (dict_set k v d) = (if k \<in> fst ` set d then map fst d else map fst d @ [k])"
  by (induction d) force+

lemma distinct_dict_set: "distinct (map fst d) \<Longrightarrow> distinct (map fst (dict_set k v d))"
  by (simp add: keys_dict_set)

lemma set_keys_dict_set: "fst ` set (dict_set k v d) = insert k (fst ` set d)"
proof -
  have "set (map fst (dict_set k v d)) = insert k (set (map fst d))"
    unfolding keys_dict_set by auto
  then show ?thesis by simp
qed

lemma build_parent_map_map_of:
  "map_of (build_parent_map cl pm) = map_of pm ++ map_of (rev cl)"
proof (induction cl arbitrary: pm)
  case Nil
  then show ?case by simp
next
  case (Cons d cl)
  obtain c ps where d: "d = (c, ps)" by (cases d)
  have "map_of (build_parent_map (d # cl) pm) = map_of (dict_set c ps pm) ++ map_of (rev cl)"
    by (simp add: d Cons.IH)
  also have "\<dots> = (map_of pm)(c \<mapsto> ps) ++ map_of (rev cl)"
    by (simp only: map_of_dict_set)
  also have "\<dots> = map_of pm ++ map_of (rev (d # cl))"
    by (simp add: d fun_eq_iff map_add_def split: option.splits)
  finally show ?case .
qed

lemma build_parent_map_distinct:
  "distinct (map fst pm) \<Longrightarrow> distinct (map fst (build_parent_map cl pm))"
  by (induction cl pm rule: build_parent_map.induct) (simp_all add: distinct_dict_set)

lemma build_parent_map_keys:
  "fst ` set (build_parent_map cl pm) = fst ` set pm \<union> fst ` set cl"
  by (induction cl pm rule: build_parent_map.induct) (simp_all add: set_keys_dict_set)

lemma build_parent_map_Nil: "build_parent_map cl [] = [] \<longleftrightarrow> cl = []"
proof
  assume "build_parent_map cl [] = []"
  then have "fst ` set (build_parent_map cl []) = {}" by simp
  then show "cl = []" by (simp add: build_parent_map_keys)
qed simp

lemma build_index_zip:
  "distinct ks \<Longrightarrow> set ks \<inter> fst ` set m = {} \<Longrightarrow>
     build_index ks i m = m @ zip ks [i..<i + length ks]"
proof (induction ks arbitrary: i m)
  case Nil
  then show ?case by simp
next
  case (Cons k ks)
  from Cons.prems have fresh: "k \<notin> fst ` set m" by auto
  have "build_index (k # ks) i m = build_index ks (Suc i) (m @ [(k, i)])"
    by (simp add: dict_set_fresh [OF fresh])
  also have "\<dots> = (m @ [(k, i)]) @ zip ks [Suc i..<Suc i + length ks]"
    using Cons.prems by (intro Cons.IH) auto
  also have "\<dots> = m @ zip (k # ks) [i..<i + length (k # ks)]"
  proof -
    have "[i..<i + length (k # ks)] = i # [Suc i..<Suc i + length ks]"
      using upt_conv_Cons [of i "i + length (k # ks)"] by simp
    then show ?thesis by simp
  qed
  finally show ?case .
qed

lemma build_index_keys:
  assumes "distinct ks"
  shows "build_index ks 0 [] = zip ks [0..<length ks]"
  using build_index_zip [OF assms, of "[]" 0] by simp

lemma map_of_index_Some:
  assumes "distinct ks" and "i < length ks"
  shows "map_of (zip ks [0..<length ks]) (ks ! i) = Some i"
  using map_of_zip_nth [of ks "[0..<length ks]" i] assms by simp

lemma map_of_index_None:
  "map_of (zip ks [0..<length ks]) k = None \<longleftrightarrow> k \<notin> set ks"
  by simp

lemma map_of_index_range:
  assumes "map_of (zip ks [0..<length ks]) k = Some i"
  shows "i < length ks \<and> ks ! i = k"
proof -
  from assms have "(k, i) \<in> set (zip ks [0..<length ks])" by (rule map_of_SomeD)
  then obtain j where "j < length ks" and "ks ! j = k" and "[0..<length ks] ! j = i"
    by (auto simp: set_zip)
  then show ?thesis by simp
qed

subsection \<open>The construction of the edges\<close>

lemma indeg_from_add_edge:
  assumes u: "u < n" and True: "u < length adj"
  shows "indeg_from (adj[u := adj ! u @ [v]]) {..<n} w
           = indeg_from adj {..<n} w + (if w = v then 1 else 0)"
proof -
  let ?adj' = "adj[u := adj ! u @ [v]]"
  have "indeg_from ?adj' {..<n} w
          = count_list (?adj' ! u) w + (\<Sum>x\<in>{..<n} - {u}. count_list (?adj' ! x) w)"
    unfolding indeg_from_def using u by (intro sum.remove) simp_all
  also have "(\<Sum>x\<in>{..<n} - {u}. count_list (?adj' ! x) w)
               = (\<Sum>x\<in>{..<n} - {u}. count_list (adj ! x) w)"
    by (intro sum.cong) simp_all
  also have "count_list (?adj' ! u) w = count_list (adj ! u) w + (if w = v then 1 else 0)"
    using True by simp
  finally have "indeg_from ?adj' {..<n} w
      = (count_list (adj ! u) w + (\<Sum>x\<in>{..<n} - {u}. count_list (adj ! x) w))
         + (if w = v then 1 else 0)"
    by simp
  also have "count_list (adj ! u) w + (\<Sum>x\<in>{..<n} - {u}. count_list (adj ! x) w)
               = indeg_from adj {..<n} w"
    unfolding indeg_from_def using u by (intro sum.remove [symmetric]) simp_all
  finally show ?thesis .
qed

lemma edges_add_edge:
  assumes "u < length adj"
  shows "edges (adj[u := adj ! u @ [v]]) = insert (u, v) (edges adj)"
proof (rule set_eqI)
  fix e :: "nat \<times> nat"
  obtain a b where e: "e = (a, b)" by (cases e)
  show "e \<in> edges (adj[u := adj ! u @ [v]]) \<longleftrightarrow> e \<in> insert (u, v) (edges adj)"
    using assms unfolding e edges_def by (cases "a = u") auto
qed

lemma graph_ok_add_edge:
  assumes ok: "graph_ok adj deg" and u: "u < length adj" and v: "v < length adj"
  shows "graph_ok (adj[u := adj ! u @ [v]]) (deg[v := deg ! v + 1])"
proof -
  from ok have len: "length deg = length adj"
    and rng: "\<And>x. x < length adj \<Longrightarrow> set (adj ! x) \<subseteq> {..<length adj}"
    and dg: "\<And>w. w < length adj \<Longrightarrow> deg ! w = int (indeg_from adj {..<length adj} w)"
    unfolding graph_ok_def by blast+
  have r: "\<forall>x<length adj. set ((adj[u := adj ! u @ [v]]) ! x) \<subseteq> {..<length adj}"
  proof (intro allI impI)
    fix x assume x: "x < length adj"
    show "set ((adj[u := adj ! u @ [v]]) ! x) \<subseteq> {..<length adj}"
      using rng [OF x] x v by (cases "x = u") simp_all
  qed
  have d: "\<forall>w<length adj. (deg[v := deg ! v + 1]) ! w
             = int (indeg_from (adj[u := adj ! u @ [v]]) {..<length adj} w)"
  proof (intro allI impI)
    fix w assume w: "w < length adj"
    show "(deg[v := deg ! v + 1]) ! w = int (indeg_from (adj[u := adj ! u @ [v]]) {..<length adj} w)"
      unfolding indeg_from_add_edge [OF u u]
      using dg [OF w] w len by (cases "w = v") simp_all
  qed
  show ?thesis
    unfolding graph_ok_def using len r d by simp
qed

lemma add_parents_ok:
  assumes "graph_ok adj deg" and "u < length adj"
    and "\<forall>p\<in>set ps. \<exists>v<length adj. map_of ix p = Some v"
  shows "\<exists>adj' deg'. add_parents ix u ps adj deg = Inr (adj', deg') \<and> graph_ok adj' deg' \<and>
           length adj' = length adj \<and>
           edges adj' = edges adj \<union> {u} \<times> index_of ix ` set ps"
  using assms
proof (induction ps arbitrary: adj deg)
  case Nil
  then show ?case by simp
next
  case (Cons p ps)
  from Cons.prems(3) obtain v where v: "v < length adj" and pv: "map_of ix p = Some v"
    by auto
  from Cons.prems(1) have len: "length deg = length adj" by (simp add: graph_ok_def)
  let ?adj = "adj[u := adj ! u @ [v]]" and ?deg = "deg[v := deg ! v + 1]"
  have ok: "graph_ok ?adj ?deg"
    using Cons.prems(1,2) v by (rule graph_ok_add_edge)
  have "\<exists>adj' deg'. add_parents ix u ps ?adj ?deg = Inr (adj', deg') \<and> graph_ok adj' deg' \<and>
           length adj' = length ?adj \<and>
           edges adj' = edges ?adj \<union> {u} \<times> index_of ix ` set ps"
    using ok Cons.prems(2,3) by (intro Cons.IH) simp_all
  then obtain adj' deg' where r: "add_parents ix u ps ?adj ?deg = Inr (adj', deg')"
    and ok': "graph_ok adj' deg'" and l': "length adj' = length adj"
    and e': "edges adj' = edges ?adj \<union> {u} \<times> index_of ix ` set ps"
    by auto
  have a1: "add_parents ix u (p # ps) adj deg = Inr (adj', deg')"
    using r pv v len Cons.prems(2) by (simp add: dict_get_map_of)
  have a2: "edges adj' = edges adj \<union> {u} \<times> index_of ix ` set (p # ps)"
    unfolding e' edges_add_edge [OF Cons.prems(2)] using pv by (auto simp: index_of_def)
  show ?case
    by (rule exI [of _ adj'], rule exI [of _ deg']) (intro conjI a1 ok' l' a2)
qed

lemma index_edges_Cons:
  "index_edges ix ((c, ps) # items)
     = {index_of ix c} \<times> index_of ix ` set ps \<union> index_edges ix items"
  unfolding index_edges_def by auto

lemma add_edges_ok:
  assumes "graph_ok adj deg"
    and "\<forall>(c, ps)\<in>set items. (\<exists>u<length adj. map_of ix c = Some u) \<and>
            (\<forall>p\<in>set ps. \<exists>v<length adj. map_of ix p = Some v)"
  shows "\<exists>adj' deg'. add_edges ix items adj deg = Inr (adj', deg') \<and> graph_ok adj' deg' \<and>
           length adj' = length adj \<and>
           edges adj' = edges adj \<union> index_edges ix items"
  using assms
proof (induction items arbitrary: adj deg)
  case Nil
  then show ?case by (simp add: index_edges_def)
next
  case (Cons d items)
  obtain c ps where d: "d = (c, ps)" by (cases d)
  from Cons.prems(2) obtain u where u: "u < length adj" and cu: "map_of ix c = Some u"
    and ps: "\<forall>p\<in>set ps. \<exists>v<length adj. map_of ix p = Some v"
    unfolding d by auto
  from add_parents_ok [OF Cons.prems(1) u ps] obtain adj1 deg1 where
    r1: "add_parents ix u ps adj deg = Inr (adj1, deg1)" and ok1: "graph_ok adj1 deg1"
    and l1: "length adj1 = length adj"
    and e1: "edges adj1 = edges adj \<union> {u} \<times> index_of ix ` set ps"
    by blast
  have "\<exists>adj' deg'. add_edges ix items adj1 deg1 = Inr (adj', deg') \<and> graph_ok adj' deg' \<and>
           length adj' = length adj1 \<and>
           edges adj' = edges adj1 \<union> index_edges ix items"
    using ok1 Cons.prems(2) l1 by (intro Cons.IH) simp_all
  then obtain adj' deg' where r: "add_edges ix items adj1 deg1 = Inr (adj', deg')"
    and ok': "graph_ok adj' deg'" and l': "length adj' = length adj"
    and e': "edges adj' = edges adj1 \<union> index_edges ix items"
    using l1 by auto
  have a1: "add_edges ix (d # items) adj deg = Inr (adj', deg')"
    using r r1 cu by (simp add: d dict_get_map_of)
  have a2: "edges adj' = edges adj \<union> index_edges ix (d # items)"
    unfolding e' e1 d index_edges_Cons using cu by (auto simp: index_of_def)
  show ?case
    by (rule exI [of _ adj'], rule exI [of _ deg']) (intro conjI a1 ok' l' a2)
qed

lemma graph_ok_init: "graph_ok (replicate n []) (replicate n 0)"
  by (simp add: graph_ok_def indeg_from_def)

lemma edges_init: "edges (replicate n []) = {}"
  by (auto simp: edges_def)

subsection \<open>From indices back to identifiers\<close>

lemma trancl_map_prod:
  "(a, b) \<in> r\<^sup>+ \<Longrightarrow> (f a, f b) \<in> (map_prod f f ` r)\<^sup>+"
proof (induction rule: trancl_induct)
  case (base y)
  then have "(f a, f y) \<in> map_prod f f ` r" by force
  then show ?case by (rule r_into_trancl)
next
  case (step y z)
  from step.hyps(2) have "(f y, f z) \<in> map_prod f f ` r" by force
  with step.IH show ?case by (rule trancl_into_trancl)
qed

lemma acyclic_map_prod:
  assumes inj: "inj_on f (Field r)"
  shows "acyclic (map_prod f f ` r) \<longleftrightarrow> acyclic r"
proof
  assume a: "acyclic (map_prod f f ` r)"
  show "acyclic r"
    unfolding acyclic_def
  proof (intro allI notI)
    fix x assume "(x, x) \<in> r\<^sup>+"
    then have "(f x, f x) \<in> (map_prod f f ` r)\<^sup>+" by (rule trancl_map_prod)
    with a show False by (simp add: acyclic_def)
  qed
next
  assume a: "acyclic r"
  define g where "g = the_inv_into (Field r) f"
  have gf: "g (f x) = x" if "x \<in> Field r" for x
    unfolding g_def using inj that by (rule the_inv_into_f_f)
  have inv_img: "map_prod g g ` (map_prod f f ` r) = r"
  proof (rule set_eqI)
    fix e :: "'a \<times> 'a"
    obtain x y where e: "e = (x, y)" by (cases e)
    have fld: "x' \<in> Field r \<and> y' \<in> Field r" if "(x', y') \<in> r" for x' y'
      using that by (auto simp: Field_def)
    show "e \<in> map_prod g g ` (map_prod f f ` r) \<longleftrightarrow> e \<in> r"
    proof
      assume "e \<in> map_prod g g ` (map_prod f f ` r)"
      then obtain x' y' where r: "(x', y') \<in> r" and "x = g (f x')" and "y = g (f y')"
        unfolding e by auto
      with fld [OF r] gf show "e \<in> r" by (simp add: e)
    next
      assume "e \<in> r"
      then have r: "(x, y) \<in> r" by (simp add: e)
      from fld [OF r] gf have "map_prod g g (map_prod f f (x, y)) = (x, y)" by simp
      with r show "e \<in> map_prod g g ` (map_prod f f ` r)"
        unfolding e by (metis image_eqI)
    qed
  qed
  show "acyclic (map_prod f f ` r)"
    unfolding acyclic_def
  proof (intro allI notI)
    fix y assume "(y, y) \<in> (map_prod f f ` r)\<^sup>+"
    then have "(g y, g y) \<in> (map_prod g g ` (map_prod f f ` r))\<^sup>+" by (rule trancl_map_prod)
    with a show False by (simp add: inv_img acyclic_def)
  qed
qed

text \<open>What the construction steps leave in \<^verbatim>\<open>parent_map\<close>.\<close>

lemma parent_map_facts:
  fixes cl :: "commit list"
  defines "pm \<equiv> build_parent_map cl []"
  shows "distinct (map fst pm)"
    and "set (map fst pm) = declared cl"
    and "map_of pm = effective_parents cl"
    and "(c, ps) \<in> set pm \<longleftrightarrow> effective_parents cl c = Some ps"
proof -
  show d: "distinct (map fst pm)" unfolding pm_def by (rule build_parent_map_distinct) simp
  show "set (map fst pm) = declared cl"
    unfolding pm_def declared_def using build_parent_map_keys [of cl "[]"] by simp
  show m: "map_of pm = effective_parents cl"
    unfolding pm_def effective_parents_def by (simp add: build_parent_map_map_of)
  show "(c, ps) \<in> set pm \<longleftrightarrow> effective_parents cl c = Some ps"
    using map_of_eq_Some_iff [OF d, of c ps] m by simp
qed

lemma index_edges_decl:
  "index_edges ix (build_parent_map cl []) = map_prod (index_of ix) (index_of ix) ` decl_edges cl"
proof -
  have "index_edges ix (build_parent_map cl [])
          = {(index_of ix c, index_of ix p) | c ps p. effective_parents cl c = Some ps \<and> p \<in> set ps}"
    unfolding index_edges_def parent_map_facts(4) ..
  also have "\<dots> = map_prod (index_of ix) (index_of ix) ` decl_edges cl"
    unfolding decl_edges_def by force
  finally show ?thesis .
qed

lemma decl_edges_Field:
  assumes "snd ` decl_edges cl \<subseteq> declared cl"
  shows "Field (decl_edges cl) \<subseteq> declared cl"
proof -
  have "fst ` decl_edges cl \<subseteq> declared cl"
  proof
    fix c assume "c \<in> fst ` decl_edges cl"
    then obtain ps where "effective_parents cl c = Some ps" by (auto simp: decl_edges_def)
    then have "(c, ps) \<in> set (rev cl)" unfolding effective_parents_def by (rule map_of_SomeD)
    then show "c \<in> declared cl" by (force simp: declared_def)
  qed
  with assms show ?thesis by (auto simp: Field_def Domain_fst Range_snd)
qed

lemma index_of_inj:
  assumes "distinct ks"
  shows "inj_on (index_of (zip ks [0..<length ks])) (set ks)"
proof (rule inj_onI)
  fix x y assume x: "x \<in> set ks" and y: "y \<in> set ks"
    and e: "index_of (zip ks [0..<length ks]) x = index_of (zip ks [0..<length ks]) y"
  from x obtain i where i: "i < length ks" "ks ! i = x" by (auto simp: in_set_conv_nth)
  from y obtain j where j: "j < length ks" "ks ! j = y" by (auto simp: in_set_conv_nth)
  from map_of_index_Some [OF assms i(1)] map_of_index_Some [OF assms j(1)] e i j
  have "i = j" by (simp add: index_of_def)
  with i j show "x = y" by simp
qed

lemma is_acyclic_correct:
  assumes closed: "snd ` decl_edges cl \<subseteq> declared cl"
  shows "is_acyclic cl = Inr (acyclic (decl_edges cl))"
proof (cases "cl = []")
  case True
  have "decl_edges [] = {}" by (simp add: decl_edges_def effective_parents_def)
  then show ?thesis
    unfolding True by (simp add: is_acyclic_def acyclic_def)
next
  case False
  define pm where "pm = build_parent_map cl []"
  define ks where "ks = map fst pm"
  define ix where "ix = zip ks [0..<length ks]"
  define n where "n = length ks"
  note pmf = parent_map_facts [where cl = cl, folded pm_def]
  have dist: "distinct ks" and keys: "set ks = declared cl"
    using pmf(1,2) by (simp_all add: ks_def)
  have pm_ne: "pm \<noteq> []" using False by (simp add: pm_def build_parent_map_Nil)
  have bix: "build_index (map fst pm) 0 [] = ix"
    using build_index_keys [OF dist] by (simp add: ix_def ks_def)
  have lix: "length ix = n" by (simp add: ix_def n_def)
  have look: "\<exists>u<n. map_of ix k = Some u" if "k \<in> declared cl" for k
  proof -
    from that keys have "k \<in> set ks" by simp
    then obtain i where "i < length ks" and "ks ! i = k"
      by (auto simp: in_set_conv_nth)
    with map_of_index_Some [OF dist, of i] show ?thesis by (auto simp: ix_def n_def)
  qed
  have items: "\<forall>(c, ps)\<in>set pm. (\<exists>u<length (replicate n ([]::nat list)). map_of ix c = Some u) \<and>
                 (\<forall>p\<in>set ps. \<exists>v<length (replicate n ([]::nat list)). map_of ix p = Some v)"
  proof (intro ballI, clarify, intro conjI ballI)
    fix c ps assume cps: "(c, ps) \<in> set pm"
    then have "c \<in> set ks" by (force simp: ks_def)
    with keys look show "\<exists>u<length (replicate n ([]::nat list)). map_of ix c = Some u" by simp
    fix p assume "p \<in> set ps"
    with cps pmf(4) have "(c, p) \<in> decl_edges cl" by (auto simp: decl_edges_def)
    with closed have "p \<in> declared cl" by force
    with look show "\<exists>v<length (replicate n ([]::nat list)). map_of ix p = Some v" by simp
  qed
  from add_edges_ok [OF graph_ok_init items] obtain adj deg where
    ae: "add_edges ix pm (replicate n []) (replicate n 0) = Inr (adj, deg)"
    and ok: "graph_ok adj deg" and la: "length adj = n"
    and ed: "edges adj = index_edges ix pm"
    by (auto simp: edges_init)
  from ok have "length deg = length adj"
    and "\<forall>u<length adj. set (adj ! u) \<subseteq> {..<length adj}"
    and "\<forall>v<length adj. deg ! v = int (indeg_from adj {..<length adj} v)"
    unfolding graph_ok_def by blast+
  from kahn_loop_correct [OF this] obtain cnt where
    kl: "kahn_loop adj (seed_queue n deg) deg 0 = Inr cnt"
    and res: "cnt = n \<longleftrightarrow> acyclic (edges adj)"
    unfolding la by blast
  have "inj_on (index_of ix) (Field (decl_edges cl))"
    using index_of_inj [OF dist] decl_edges_Field [OF closed] keys
    unfolding ix_def by (auto intro: inj_on_subset)
  then have "acyclic (edges adj) \<longleftrightarrow> acyclic (decl_edges cl)"
    unfolding ed pm_def index_edges_decl by (rule acyclic_map_prod)
  with res have res': "cnt = n \<longleftrightarrow> acyclic (decl_edges cl)" by simp
  show ?thesis
    unfolding is_acyclic_def build_graph_def pm_def [symmetric] Let_def bix lix
    using pm_ne ae kl res' by simp
qed

lemma parents_declared_closed:
  assumes "\<forall>(c, ps)\<in>set cl. set ps \<subseteq> declared cl"
  shows "snd ` decl_edges cl \<subseteq> declared cl"
proof
  fix p assume "p \<in> snd ` decl_edges cl"
  then obtain c ps where e: "effective_parents cl c = Some ps" and p: "p \<in> set ps"
    by (auto simp: decl_edges_def)
  from e have "(c, ps) \<in> set (rev cl)" unfolding effective_parents_def by (rule map_of_SomeD)
  with assms p show "p \<in> declared cl" by auto
qed

subsection \<open>Undeclared parents\<close>

lemma add_parents_err:
  assumes "length deg = length adj" and "u < length adj"
    and "\<forall>k v. map_of ix k = Some v \<longrightarrow> v < length adj"
    and "\<exists>p\<in>set ps. map_of ix p = None"
  shows "\<exists>p\<in>set ps. map_of ix p = None \<and> add_parents ix u ps adj deg = Inl (KeyError p)"
  using assms
proof (induction ps arbitrary: adj deg)
  case Nil
  then show ?case by simp
next
  case (Cons p ps)
  show ?case
  proof (cases "map_of ix p")
    case None
    then have "add_parents ix u (p # ps) adj deg = Inl (KeyError p)"
      by (simp add: dict_get_map_of)
    with None show ?thesis by simp
  next
    case (Some v)
    with Cons.prems(3) have v: "v < length adj" by simp
    let ?adj = "adj[u := adj ! u @ [v]]" and ?deg = "deg[v := deg ! v + 1]"
    from Some Cons.prems(4) have ex: "\<exists>q\<in>set ps. map_of ix q = None" by auto
    have "\<exists>q\<in>set ps. map_of ix q = None \<and> add_parents ix u ps ?adj ?deg = Inl (KeyError q)"
      using Cons.prems(1,2,3) ex by (intro Cons.IH) simp_all
    then obtain q where q: "q \<in> set ps" "map_of ix q = None"
      and r: "add_parents ix u ps ?adj ?deg = Inl (KeyError q)" by blast
    have "add_parents ix u (p # ps) adj deg = Inl (KeyError q)"
      using r Some v Cons.prems(1,2) by (simp add: dict_get_map_of)
    with q show ?thesis by auto
  qed
qed

lemma add_edges_err:
  assumes "graph_ok adj deg"
    and "\<forall>(c, ps)\<in>set items. \<exists>u<length adj. map_of ix c = Some u"
    and "\<forall>k v. map_of ix k = Some v \<longrightarrow> v < length adj"
    and "\<exists>(c, ps)\<in>set items. \<exists>p\<in>set ps. map_of ix p = None"
  shows "\<exists>(c, ps)\<in>set items. \<exists>p\<in>set ps. map_of ix p = None \<and>
           add_edges ix items adj deg = Inl (KeyError p)"
  using assms
proof (induction items arbitrary: adj deg)
  case Nil
  then show ?case by simp
next
  case (Cons d items)
  obtain c ps where d: "d = (c, ps)" by (cases d)
  from Cons.prems(2) obtain u where u: "u < length adj" and cu: "map_of ix c = Some u"
    unfolding d by auto
  from Cons.prems(1) have len: "length deg = length adj" by (simp add: graph_ok_def)
  show ?case
  proof (cases "\<exists>p\<in>set ps. map_of ix p = None")
    case True
    from add_parents_err [OF len u Cons.prems(3) True] obtain p where
      p: "p \<in> set ps" "map_of ix p = None"
      and r: "add_parents ix u ps adj deg = Inl (KeyError p)" by blast
    have "add_edges ix (d # items) adj deg = Inl (KeyError p)"
      using r cu by (simp add: d dict_get_map_of)
    with p show ?thesis unfolding d by auto
  next
    case False
    then have "\<forall>p\<in>set ps. \<exists>v<length adj. map_of ix p = Some v"
      using Cons.prems(3) by fastforce
    from add_parents_ok [OF Cons.prems(1) u this] obtain adj1 deg1 where
      r1: "add_parents ix u ps adj deg = Inr (adj1, deg1)" and ok1: "graph_ok adj1 deg1"
      and l1: "length adj1 = length adj" by blast
    from False Cons.prems(4) have ex: "\<exists>(c, ps)\<in>set items. \<exists>p\<in>set ps. map_of ix p = None"
      unfolding d by auto
    have "\<exists>(c, ps)\<in>set items. \<exists>p\<in>set ps. map_of ix p = None \<and>
            add_edges ix items adj1 deg1 = Inl (KeyError p)"
      using ok1 Cons.prems(2,3) ex l1 by (intro Cons.IH) simp_all
    then obtain c' ps' p where m: "(c', ps') \<in> set items" "p \<in> set ps'" "map_of ix p = None"
      and r: "add_edges ix items adj1 deg1 = Inl (KeyError p)" by blast
    have "add_edges ix (d # items) adj deg = Inl (KeyError p)"
      using r r1 cu by (simp add: d dict_get_map_of)
    with m show ?thesis by auto
  qed
qed

lemma is_acyclic_dangling:
  assumes open_ref: "\<not> snd ` decl_edges cl \<subseteq> declared cl"
  shows "\<exists>p. p \<in> snd ` decl_edges cl \<and> p \<notin> declared cl \<and> is_acyclic cl = Inl (KeyError p)"
proof -
  have "decl_edges [] = {}" by (simp add: decl_edges_def effective_parents_def)
  with open_ref have ne: "cl \<noteq> []" by auto
  define pm where "pm = build_parent_map cl []"
  define ks where "ks = map fst pm"
  define ix where "ix = zip ks [0..<length ks]"
  define n where "n = length ks"
  note pmf = parent_map_facts [where cl = cl, folded pm_def]
  have dist: "distinct ks" and keys: "set ks = declared cl"
    using pmf(1,2) by (simp_all add: ks_def)
  have pm_ne: "pm \<noteq> []" using ne by (simp add: pm_def build_parent_map_Nil)
  have bix: "build_index (map fst pm) 0 [] = ix"
    using build_index_keys [OF dist] by (simp add: ix_def ks_def)
  have lix: "length ix = n" by (simp add: ix_def n_def)
  have h2: "\<forall>(c, ps)\<in>set pm. \<exists>u<length (replicate n ([]::nat list)). map_of ix c = Some u"
  proof (intro ballI, clarify)
    fix c ps assume "(c, ps) \<in> set pm"
    then have "c \<in> set ks" by (force simp: ks_def)
    then obtain i where "i < length ks" and "ks ! i = c" by (auto simp: in_set_conv_nth)
    with map_of_index_Some [OF dist, of i]
    show "\<exists>u<length (replicate n ([]::nat list)). map_of ix c = Some u"
      by (auto simp: ix_def n_def)
  qed
  have h3: "\<forall>k v. map_of ix k = Some v \<longrightarrow> v < length (replicate n ([]::nat list))"
    using map_of_index_range [of ks] by (auto simp: ix_def n_def)
  have h4: "\<exists>(c, ps)\<in>set pm. \<exists>p\<in>set ps. map_of ix p = None"
  proof -
    from open_ref obtain e where "e \<in> decl_edges cl" and "snd e \<notin> declared cl" by blast
    then obtain c p where "(c, p) \<in> decl_edges cl" and pn: "p \<notin> declared cl"
      by (cases e) simp
    then obtain ps where "(c, ps) \<in> set pm" and "p \<in> set ps"
      by (auto simp: decl_edges_def pmf(4))
    moreover from pn keys have "map_of ix p = None" by (simp add: ix_def)
    ultimately show ?thesis by auto
  qed
  from add_edges_err [OF graph_ok_init h2 h3 h4] obtain c ps p where
    m: "(c, ps) \<in> set pm" "p \<in> set ps" "map_of ix p = None"
    and r: "add_edges ix pm (replicate n []) (replicate n 0) = Inl (KeyError p)" by blast
  from m(1,2) have "(c, p) \<in> decl_edges cl" by (auto simp: decl_edges_def pmf(4))
  then have "p \<in> snd ` decl_edges cl" by force
  moreover from m(3) keys have "p \<notin> declared cl" by (simp add: ix_def)
  moreover have "is_acyclic cl = Inl (KeyError p)"
    unfolding is_acyclic_def build_graph_def pm_def [symmetric] Let_def bix lix
    using pm_ne r by simp
  ultimately show ?thesis by blast
qed

subsection \<open>Superseded declarations\<close>

lemma effective_parents_None: "effective_parents cl x = None \<longleftrightarrow> x \<notin> declared cl"
  by (simp add: effective_parents_def declared_def map_of_eq_None_iff)

lemma effective_parents_Cons:
  "effective_parents ((c, ps) # cl) x =
     (if x \<in> declared cl then effective_parents cl x else if x = c then Some ps else None)"
proof (cases "effective_parents cl x")
  case None
  then show ?thesis
    using effective_parents_None [of cl x]
    by (simp add: effective_parents_def map_add_def)
next
  case (Some a)
  then show ?thesis
    using effective_parents_None [of cl x]
    by (simp add: effective_parents_def map_add_def)
qed

lemma effective_parents_last:
  assumes "x \<notin> declared post"
  shows "effective_parents (pre @ (x, ps) # post) x = Some ps"
  using assms by (induction pre) (auto simp: effective_parents_Cons declared_def)

lemma declared_remove_non_final: "declared (remove_non_final cl) = declared cl"
  by (induction cl rule: remove_non_final.induct) (auto simp: declared_def)

lemma effective_parents_remove_non_final:
  "effective_parents (remove_non_final cl) = effective_parents cl"
proof (induction cl rule: remove_non_final.induct)
  case 1
  then show ?case by simp
next
  case (2 c ps rest)
  show ?case
  proof (rule ext)
    fix x
    show "effective_parents (remove_non_final ((c, ps) # rest)) x
            = effective_parents ((c, ps) # rest) x"
    proof (cases "c \<in> declared rest")
      case True
      with 2 have "effective_parents (remove_non_final ((c, ps) # rest)) x = effective_parents rest x"
        by simp
      also have "\<dots> = effective_parents ((c, ps) # rest) x"
        using True effective_parents_None [of rest x] by (auto simp: effective_parents_Cons)
      finally show ?thesis .
    next
      case False
      with 2 have ih: "effective_parents (remove_non_final rest) = effective_parents rest"
        by simp
      show ?thesis
        using False by (simp add: effective_parents_Cons ih declared_remove_non_final)
    qed
  qed
qed

lemma decl_edges_cong:
  "effective_parents cl = effective_parents cl' \<Longrightarrow> decl_edges cl = decl_edges cl'"
  by (simp add: decl_edges_def)

lemma is_acyclic_same_graph:
  assumes e: "decl_edges cl = decl_edges cl'" and d: "declared cl = declared cl'"
  shows "is_acyclic cl = Inr b \<longleftrightarrow> is_acyclic cl' = Inr b"
proof (cases "snd ` decl_edges cl \<subseteq> declared cl")
  case True
  then have "snd ` decl_edges cl' \<subseteq> declared cl'" using e d by simp
  from is_acyclic_correct [OF True] is_acyclic_correct [OF this] e show ?thesis by simp
next
  case False
  then have "\<not> snd ` decl_edges cl' \<subseteq> declared cl'" using e d by simp
  from is_acyclic_dangling [OF False] is_acyclic_dangling [OF this] show ?thesis by auto
qed

lemma is_acyclic_same_graph_closed:
  assumes e: "decl_edges cl = decl_edges cl'" and d: "declared cl = declared cl'"
    and c: "snd ` decl_edges cl \<subseteq> declared cl"
  shows "is_acyclic cl' = is_acyclic cl"
proof -
  from c have "snd ` decl_edges cl' \<subseteq> declared cl'" using e d by simp
  from is_acyclic_correct [OF c] is_acyclic_correct [OF this] e show ?thesis by simp
qed

lemma is_acyclic_duplicate: "is_acyclic [(x, p), (x, p)] = is_acyclic [(x, p)]"
proof -
  have "build_parent_map [(x, p), (x, p)] [] = build_parent_map [(x, p)] []" by simp
  then show ?thesis unfolding is_acyclic_def by (rule arg_cong)
qed

lemma parent_map_lookup:
  "dict_get (build_parent_map cl []) x =
     (case effective_parents cl x of None \<Rightarrow> Inl (KeyError x) | Some ps \<Rightarrow> Inr ps)"
  by (simp add: dict_get_map_of parent_map_facts(3))

subsection \<open>Self-loops\<close>

lemma self_loop_cyclic:
  assumes "effective_parents cl x = Some ps" and "x \<in> set ps"
  shows "\<not> acyclic (decl_edges cl)"
proof -
  from assms have "(x, x) \<in> decl_edges cl" by (auto simp: decl_edges_def)
  then have "(x, x) \<in> (decl_edges cl)\<^sup>+" by (rule r_into_trancl)
  then show ?thesis by (auto simp: acyclic_def)
qed

lemma is_acyclic_cyclic:
  assumes "\<not> acyclic (decl_edges cl)"
  shows "is_acyclic cl \<noteq> Inr True"
proof (cases "snd ` decl_edges cl \<subseteq> declared cl")
  case True
  from is_acyclic_correct [OF True] assms show ?thesis by simp
next
  case False
  from is_acyclic_dangling [OF False] show ?thesis by auto
qed

subsection \<open>Parents reordered\<close>

lemma map_of_rel:
  assumes "list_all2 (\<lambda>d d'. fst d = fst d' \<and> set (snd d) = set (snd d')) cl cl'"
  shows "rel_option (\<lambda>ps ps'. set ps = set ps') (map_of cl x) (map_of cl' x)"
  using assms by (induction rule: list_all2_induct) auto

lemma decl_edges_rel:
  assumes r: "list_all2 (\<lambda>d d'. fst d = fst d' \<and> set (snd d) = set (snd d')) cl cl'"
  shows "decl_edges cl = decl_edges cl'" and "declared cl = declared cl'"
proof -
  from r have rr: "list_all2 (\<lambda>d d'. fst d = fst d' \<and> set (snd d) = set (snd d')) (rev cl) (rev cl')"
    by simp
  have rel: "rel_option (\<lambda>ps ps'. set ps = set ps') (effective_parents cl x) (effective_parents cl' x)"
    for x unfolding effective_parents_def using rr by (rule map_of_rel)
  show "decl_edges cl = decl_edges cl'"
  proof (rule set_eqI)
    fix e :: "string \<times> string"
    obtain c p where e: "e = (c, p)" by (cases e)
    show "e \<in> decl_edges cl \<longleftrightarrow> e \<in> decl_edges cl'"
      using rel [of c] unfolding e decl_edges_def
      by (cases "effective_parents cl c"; cases "effective_parents cl' c") auto
  qed
  from r have "map fst cl = map fst cl'"
    by (induction rule: list_all2_induct) auto
  then have "set (map fst cl) = set (map fst cl')" by simp
  then show "declared cl = declared cl'" by (simp add: declared_def)
qed

lemma reorder_parents_rel:
  assumes "i < length cl" and "cl ! i = (c, ps)" and "mset ps' = mset ps"
  shows "list_all2 (\<lambda>d d'. fst d = fst d' \<and> set (snd d) = set (snd d')) cl (cl[i := (c, ps')])"
proof -
  have "list_all2 (\<lambda>d d'. fst d = fst d' \<and> set (snd d) = set (snd d')) cl cl"
    by (simp add: list_all2_same)
  moreover have "set ps = set ps'" using assms(3) by (metis mset_eq_setD)
  ultimately have "list_all2 (\<lambda>d d'. fst d = fst d' \<and> set (snd d) = set (snd d'))
                     (cl[i := (c, ps)]) (cl[i := (c, ps')])"
    by (intro list_all2_update_cong) simp_all
  moreover have "cl[i := (c, ps)] = cl" using assms(1,2) by (metis list_update_id)
  ultimately show ?thesis by simp
qed

subsection \<open>Declarations reordered\<close>

lemma effective_parents_distinct:
  assumes "distinct (map fst cl)"
  shows "effective_parents cl c = Some ps \<longleftrightarrow> (c, ps) \<in> set cl"
proof -
  have "distinct (map fst (rev cl))" using assms by (simp add: rev_map [symmetric])
  from map_of_eq_Some_iff [OF this, of c ps] show ?thesis by (simp add: effective_parents_def)
qed

lemma decl_edges_distinct:
  assumes "distinct (map fst cl)"
  shows "decl_edges cl = {(c, p). \<exists>ps. (c, ps) \<in> set cl \<and> p \<in> set ps}"
  unfolding decl_edges_def effective_parents_distinct [OF assms] ..

lemma permuted_graph:
  assumes d: "distinct (map fst cl)" and m: "mset cl' = mset cl"
  shows "decl_edges cl' = decl_edges cl" and "declared cl' = declared cl"
proof -
  from m have "mset (map fst cl') = mset (map fst cl)" by simp
  then have d': "distinct (map fst cl')" using d by (metis mset_eq_imp_distinct_iff)
  from m have s: "set cl' = set cl" by (rule mset_eq_setD)
  show "decl_edges cl' = decl_edges cl"
    unfolding decl_edges_distinct [OF d] decl_edges_distinct [OF d'] s ..
  show "declared cl' = declared cl" by (simp add: declared_def s)
qed

subsection \<open>Chains\<close>

lemma length_chain: "length (chain xs) = length xs"
  by (simp add: chain_def)

lemma chain_nth:
  assumes "i < length xs"
  shows "chain xs ! i = (xs ! i, if i = 0 then [] else [xs ! (i - 1)])"
  using assms by (cases i) (simp_all add: chain_def)

lemma map_fst_chain: "map fst (chain xs) = xs"
  by (rule nth_equalityI) (simp_all add: length_chain chain_nth)

lemma length_close_cycle: "length (close_cycle xs) = length xs"
  by (simp add: close_cycle_def length_chain)

lemma close_cycle_nth:
  assumes "i < length xs"
  shows "close_cycle xs ! i = (xs ! i, if i = 0 then [last xs] else [xs ! (i - 1)])"
proof (cases i)
  case 0
  with assms have "xs \<noteq> []" by auto
  then have "hd xs = xs ! 0" by (simp add: hd_conv_nth)
  with 0 assms show ?thesis by (simp add: close_cycle_def length_chain)
next
  case (Suc j)
  with assms show ?thesis by (simp add: close_cycle_def chain_nth)
qed

lemma map_fst_close_cycle: "map fst (close_cycle xs) = xs"
  by (rule nth_equalityI) (simp_all add: length_close_cycle close_cycle_nth)

lemma chain_edges:
  assumes "distinct xs"
  shows "decl_edges (chain xs) = {(xs ! Suc i, xs ! i) | i. Suc i < length xs}"
proof -
  have d: "distinct (map fst (chain xs))" using assms by (simp add: map_fst_chain)
  show ?thesis
  proof (rule set_eqI)
    fix e :: "string \<times> string"
    obtain c p where e: "e = (c, p)" by (cases e)
    show "e \<in> decl_edges (chain xs) \<longleftrightarrow> e \<in> {(xs ! Suc i, xs ! i) | i. Suc i < length xs}"
    proof
      assume "e \<in> decl_edges (chain xs)"
      then obtain ps where "(c, ps) \<in> set (chain xs)" and p: "p \<in> set ps"
        unfolding e decl_edges_distinct [OF d] by auto
      then obtain j where j: "j < length xs" and "chain xs ! j = (c, ps)"
        by (auto simp: in_set_conv_nth length_chain)
      with chain_nth [OF j] have c: "c = xs ! j" and ps: "ps = (if j = 0 then [] else [xs ! (j - 1)])"
        by simp_all
      from p ps obtain i where "j = Suc i" and "p = xs ! i" by (cases j) auto
      with c j show "e \<in> {(xs ! Suc i, xs ! i) | i. Suc i < length xs}"
        unfolding e by auto
    next
      assume "e \<in> {(xs ! Suc i, xs ! i) | i. Suc i < length xs}"
      then obtain i where i: "Suc i < length xs" and c: "c = xs ! Suc i" and p: "p = xs ! i"
        unfolding e by auto
      from chain_nth [OF i] have "chain xs ! Suc i = (c, [p])" by (simp add: c p)
      with i have "(c, [p]) \<in> set (chain xs)"
        by (metis length_chain nth_mem)
      then show "e \<in> decl_edges (chain xs)"
        unfolding e decl_edges_distinct [OF d] by auto
    qed
  qed
qed

lemma close_cycle_edges:
  assumes "distinct xs" and "xs \<noteq> []"
  shows "decl_edges (close_cycle xs)
           = insert (xs ! 0, last xs) {(xs ! Suc i, xs ! i) | i. Suc i < length xs}"
proof -
  have d: "distinct (map fst (close_cycle xs))" using assms by (simp add: map_fst_close_cycle)
  from assms(2) have l0: "0 < length xs" by simp
  show ?thesis
  proof (rule set_eqI)
    fix e :: "string \<times> string"
    obtain c p where e: "e = (c, p)" by (cases e)
    show "e \<in> decl_edges (close_cycle xs)
            \<longleftrightarrow> e \<in> insert (xs ! 0, last xs) {(xs ! Suc i, xs ! i) | i. Suc i < length xs}"
    proof
      assume "e \<in> decl_edges (close_cycle xs)"
      then obtain ps where "(c, ps) \<in> set (close_cycle xs)" and p: "p \<in> set ps"
        unfolding e decl_edges_distinct [OF d] by auto
      then obtain j where j: "j < length xs" and "close_cycle xs ! j = (c, ps)"
        by (auto simp: in_set_conv_nth length_close_cycle)
      with close_cycle_nth [OF j] have c: "c = xs ! j"
        and ps: "ps = (if j = 0 then [last xs] else [xs ! (j - 1)])"
        by simp_all
      show "e \<in> insert (xs ! 0, last xs) {(xs ! Suc i, xs ! i) | i. Suc i < length xs}"
      proof (cases j)
        case 0
        with p ps c show ?thesis unfolding e by simp
      next
        case (Suc i)
        with p ps c j show ?thesis unfolding e by auto
      qed
    next
      assume "e \<in> insert (xs ! 0, last xs) {(xs ! Suc i, xs ! i) | i. Suc i < length xs}"
      then consider "c = xs ! 0" "p = last xs"
        | i where "Suc i < length xs" "c = xs ! Suc i" "p = xs ! i"
        unfolding e by auto
      then have "\<exists>j<length xs. close_cycle xs ! j = (c, [p])"
      proof cases
        case 1
        with close_cycle_nth [OF l0] l0 show ?thesis by auto
      next
        case 2
        with close_cycle_nth [OF 2(1)] show ?thesis by auto
      qed
      then have "(c, [p]) \<in> set (close_cycle xs)"
        by (metis length_close_cycle nth_mem)
      then show "e \<in> decl_edges (close_cycle xs)"
        unfolding e decl_edges_distinct [OF d] by auto
    qed
  qed
qed

lemma declared_chain: "declared (chain xs) = set xs"
  using map_fst_chain [of xs] by (metis declared_def set_map)

lemma declared_close_cycle: "declared (close_cycle xs) = set xs"
  using map_fst_close_cycle [of xs] by (metis declared_def set_map)

lemma chain_closed:
  assumes "distinct xs"
  shows "snd ` decl_edges (chain xs) \<subseteq> declared (chain xs)"
  unfolding chain_edges [OF assms] declared_chain by auto

lemma close_cycle_closed:
  assumes "distinct xs" and "xs \<noteq> []"
  shows "snd ` decl_edges (close_cycle xs) \<subseteq> declared (close_cycle xs)"
  unfolding close_cycle_edges [OF assms] declared_close_cycle using assms(2) by auto

lemma chain_acyclic:
  assumes "distinct xs"
  shows "acyclic (decl_edges (chain xs))"
proof -
  define f where "f = index_of (zip xs [0..<length xs])"
  have f: "f (xs ! i) = i" if "i < length xs" for i
    using map_of_index_Some [OF assms that] by (simp add: f_def index_of_def)
  have "decl_edges (chain xs) \<subseteq> (measure f)\<inverse>"
    unfolding chain_edges [OF assms] by (auto simp: f)
  moreover have "acyclic ((measure f)\<inverse>)"
    by (simp add: wf_acyclic)
  ultimately show ?thesis by (rule acyclic_subset [rotated])
qed

lemma close_cycle_cyclic:
  assumes "distinct xs" and "xs \<noteq> []"
  shows "\<not> acyclic (decl_edges (close_cycle xs))"
proof -
  define E where "E = decl_edges (close_cycle xs)"
  have step: "(xs ! Suc i, xs ! i) \<in> E" if "Suc i < length xs" for i
    unfolding E_def close_cycle_edges [OF assms] using that by auto
  have down: "i < length xs \<Longrightarrow> (xs ! i, xs ! 0) \<in> E\<^sup>*" for i
  proof (induction i)
    case 0
    then show ?case by simp
  next
    case (Suc i)
    then have "(xs ! i, xs ! 0) \<in> E\<^sup>*" by simp
    with step [OF Suc.prems] show ?case by (rule converse_rtrancl_into_rtrancl)
  qed
  have "last xs = xs ! (length xs - 1)" using assms(2) by (rule last_conv_nth)
  with down [of "length xs - 1"] assms(2) have "(last xs, xs ! 0) \<in> E\<^sup>*" by simp
  moreover have "(xs ! 0, last xs) \<in> E"
    unfolding E_def close_cycle_edges [OF assms] by simp
  ultimately have "(xs ! 0, xs ! 0) \<in> E\<^sup>+" by (rule rtrancl_into_trancl2 [rotated])
  then show ?thesis unfolding E_def by (auto simp: acyclic_def)
qed

lemma dangling_empty: "dangling cl = {} \<longleftrightarrow> snd ` decl_edges cl \<subseteq> declared cl"
  by (auto simp: dangling_def)

lemma parents_declared_dangling:
  assumes "\<forall>(c, ps)\<in>set cl. set ps \<subseteq> declared cl"
  shows "dangling cl = {}"
  using parents_declared_closed [OF assms] by (simp add: dangling_empty)

subsection \<open>The number of iterations\<close>

lemma kahn_loop_bounded_inv:
  "kahn_inv adj V q deg cnt \<Longrightarrow> length adj - card V \<le> fuel \<Longrightarrow>
     kahn_loop_bounded fuel adj q deg cnt = Some (kahn_loop adj q deg cnt)"
proof (induction adj q deg cnt arbitrary: V fuel rule: kahn_loop.induct)
  case (1 adj deg cnt)
  then show ?case by simp
next
  case (2 adj node queue deg cnt)
  note I = kahn_invD [OF "2.prems"(1)]
  from I(4) have node: "node < length adj" by simp
  from I(6) have nV: "node \<notin> V" by auto
  have finV: "finite V" using I(3) by (rule finite_subset) simp
  have "card (insert node V) \<le> card {..<length adj}"
    using I(3) node by (intro card_mono) auto
  then have lt: "card V < length adj" using nV finV by simp
  with "2.prems"(2) obtain f where fuel: "fuel = Suc f" by (cases fuel) auto
  from kahn_inv_step [OF "2.prems"(1)] obtain deg' q' where
    r: "relax (adj ! node) deg queue = Inr (deg', q')"
    and inv': "kahn_inv adj (insert node V) q' deg' (cnt + 1)"
    by blast
  have "length adj - card (insert node V) \<le> f"
    using "2.prems"(2) nV finV fuel by simp
  from "2.IH" [OF node r refl inv' this]
  have "kahn_loop_bounded f adj q' deg' (cnt + 1) = Some (kahn_loop adj q' deg' (cnt + 1))" .
  then show ?case using node r fuel by simp
qed

lemma build_graph_ok:
  assumes closed: "snd ` decl_edges cl \<subseteq> declared cl"
  shows "\<exists>adj deg. build_graph (build_parent_map cl []) = Inr (card (declared cl), adj, deg) \<and>
           graph_ok adj deg \<and> length adj = card (declared cl)"
proof -
  define pm where "pm = build_parent_map cl []"
  define ks where "ks = map fst pm"
  define ix where "ix = zip ks [0..<length ks]"
  define n where "n = length ks"
  note pmf = parent_map_facts [where cl = cl, folded pm_def]
  have dist: "distinct ks" and keys: "set ks = declared cl"
    using pmf(1,2) by (simp_all add: ks_def)
  have n: "n = card (declared cl)"
    using distinct_card [OF dist] keys by (simp add: n_def)
  have bix: "build_index (map fst pm) 0 [] = ix"
    using build_index_keys [OF dist] by (simp add: ix_def ks_def)
  have lix: "length ix = n" by (simp add: ix_def n_def)
  have look: "\<exists>u<n. map_of ix k = Some u" if "k \<in> declared cl" for k
  proof -
    from that keys have "k \<in> set ks" by simp
    then obtain i where "i < length ks" and "ks ! i = k"
      by (auto simp: in_set_conv_nth)
    with map_of_index_Some [OF dist, of i] show ?thesis by (auto simp: ix_def n_def)
  qed
  have items: "\<forall>(c, ps)\<in>set pm. (\<exists>u<length (replicate n ([]::nat list)). map_of ix c = Some u) \<and>
                 (\<forall>p\<in>set ps. \<exists>v<length (replicate n ([]::nat list)). map_of ix p = Some v)"
  proof (intro ballI, clarify, intro conjI ballI)
    fix c ps assume cps: "(c, ps) \<in> set pm"
    then have "c \<in> set ks" by (force simp: ks_def)
    with keys look show "\<exists>u<length (replicate n ([]::nat list)). map_of ix c = Some u" by simp
    fix p assume "p \<in> set ps"
    with cps pmf(4) have "(c, p) \<in> decl_edges cl" by (auto simp: decl_edges_def)
    with closed have "p \<in> declared cl" by force
    with look show "\<exists>v<length (replicate n ([]::nat list)). map_of ix p = Some v" by simp
  qed
  from add_edges_ok [OF graph_ok_init items] obtain adj deg where
    ae: "add_edges ix pm (replicate n []) (replicate n 0) = Inr (adj, deg)"
    and ok: "graph_ok adj deg" and la: "length adj = n"
    by auto
  have "build_graph pm = Inr (n, adj, deg)"
    unfolding build_graph_def Let_def bix lix using ae by simp
  with ok la show ?thesis unfolding n pm_def by blast
qed

subsection \<open>The store\<close>

lemma frame_refl: "frame L h h"
  by (simp add: frame_def)

lemma frame_trans: "frame L h h1 \<Longrightarrow> frame L h1 h2 \<Longrightarrow> frame L h h2"
  by (simp add: frame_def)

lemma frame_alloc: "L \<le> length h \<Longrightarrow> alloc ob h = (a, h') \<Longrightarrow> frame L h h'"
  by (auto simp: frame_def alloc_def)

lemma frame_update: "L \<le> a \<Longrightarrow> frame L h (h[a := ob])"
  by (simp add: frame_def)

lemma frame_length: "frame L h h' \<Longrightarrow> L \<le> length h \<Longrightarrow> L \<le> length h'"
  by (simp add: frame_def)

lemma build_parent_map_h_frame:
  "build_parent_map_h ds pm h = (r, h') \<Longrightarrow> L \<le> length h \<Longrightarrow> frame L h h'"
proof (induction ds arbitrary: pm h)
  case Nil
  then show ?case by (simp add: frame_refl)
next
  case (Cons d ds)
  obtain c pa where d: "d = (c, pa)" by (cases d)
  show ?case
  proof (cases "get_strs h pa")
    case (Inl e)
    with Cons.prems show ?thesis by (simp add: d frame_refl)
  next
    case (Inr ps)
    obtain a h1 where al: "alloc (StrList ps) h = (a, h1)" by (cases "alloc (StrList ps) h")
    from frame_alloc [OF Cons.prems(2) al] have f1: "frame L h h1" .
    from Cons.prems(1) Inr al have "build_parent_map_h ds (dict_set c a pm) h1 = (r, h')"
      by (simp add: d)
    from Cons.IH [OF this frame_length [OF f1 Cons.prems(2)]] have "frame L h1 h'" .
    with f1 show ?thesis by (rule frame_trans)
  qed
qed

lemma alloc_lists_frame:
  "alloc_lists n h = (as, h') \<Longrightarrow> L \<le> length h \<Longrightarrow>
     frame L h h' \<and> (\<forall>a\<in>set as. L \<le> a)"
proof (induction n arbitrary: h as h')
  case 0
  then show ?case by (simp add: frame_refl)
next
  case (Suc n)
  obtain a h1 where al: "alloc (NatList []) h = (a, h1)" by (cases "alloc (NatList []) h")
  obtain as1 h2 where r: "alloc_lists n h1 = (as1, h2)" by (cases "alloc_lists n h1")
  from al have a: "a = length h" by (simp add: alloc_def)
  from frame_alloc [OF Suc.prems(2) al] have f1: "frame L h h1" .
  from Suc.IH [OF r frame_length [OF f1 Suc.prems(2)]]
  have f2: "frame L h1 h2" and as1: "\<forall>a\<in>set as1. L \<le> a" by simp_all
  from Suc.prems(1) al r have "as = a # as1" and "h' = h2" by simp_all
  with f1 f2 as1 a Suc.prems(2) show ?case by (auto intro: frame_trans)
qed

lemma add_parents_h_frame:
  "add_parents_h ix u ps adj deg h = (r, h') \<Longrightarrow> \<forall>a\<in>set adj. L \<le> a \<Longrightarrow> L \<le> deg \<Longrightarrow>
     frame L h h'"
proof (induction ps arbitrary: h)
  case Nil
  then show ?case by (simp add: frame_refl)
next
  case (Cons p ps)
  show ?case
  proof (cases "dict_get ix p")
    case (Inl e)
    with Cons.prems show ?thesis by (simp add: frame_refl)
  next
    case v: (Inr v)
    show ?thesis
    proof (cases "u < length adj")
      case False
      with Cons.prems v show ?thesis by (simp add: frame_refl)
    next
      case u: True
      with Cons.prems(2) have La: "L \<le> adj ! u" by simp
      show ?thesis
      proof (cases "get_nats h (adj ! u)")
        case (Inl e)
        with Cons.prems v u show ?thesis by (simp add: frame_refl)
      next
        case ns: (Inr ns)
        define h1 where "h1 = h[adj ! u := NatList (ns @ [v])]"
        have f1: "frame L h h1" unfolding h1_def using La by (rule frame_update)
        show ?thesis
        proof (cases "get_ints h1 deg")
          case (Inl e)
          with Cons.prems(1) v u ns have "h' = h1" by (simp add: h1_def Let_def)
          with f1 show ?thesis by simp
        next
          case ds: (Inr ds)
          show ?thesis
          proof (cases "v < length ds")
            case False
            with Cons.prems(1) v u ns ds have "h' = h1" by (simp add: h1_def Let_def)
            with f1 show ?thesis by simp
          next
            case True
            define h2 where "h2 = h1[deg := IntList (ds[v := ds ! v + 1])]"
            have f2: "frame L h1 h2" unfolding h2_def using Cons.prems(3) by (rule frame_update)
            from Cons.prems(1) v u ns ds True
            have "add_parents_h ix u ps adj deg h2 = (r, h')"
              by (simp add: h1_def h2_def Let_def)
            from Cons.IH [OF this Cons.prems(2,3)] have "frame L h2 h'" .
            with f1 f2 show ?thesis by (blast intro: frame_trans)
          qed
        qed
      qed
    qed
  qed
qed

lemma add_edges_h_frame:
  "add_edges_h ix items adj deg h = (r, h') \<Longrightarrow> \<forall>a\<in>set adj. L \<le> a \<Longrightarrow> L \<le> deg \<Longrightarrow>
     frame L h h'"
proof (induction items arbitrary: h)
  case Nil
  then show ?case by (simp add: frame_refl)
next
  case (Cons d items)
  obtain c pa where d: "d = (c, pa)" by (cases d)
  show ?case
  proof (cases "dict_get ix c")
    case (Inl e)
    with Cons.prems show ?thesis by (simp add: d frame_refl)
  next
    case u: (Inr u)
    show ?thesis
    proof (cases "get_strs h pa")
      case (Inl e)
      with Cons.prems u show ?thesis by (simp add: d frame_refl)
    next
      case ps: (Inr ps)
      obtain r1 h1 where ap: "add_parents_h ix u ps adj deg h = (r1, h1)"
        by (cases "add_parents_h ix u ps adj deg h")
      from add_parents_h_frame [OF ap Cons.prems(2,3)] have f1: "frame L h h1" .
      show ?thesis
      proof (cases r1)
        case (Inl e)
        with Cons.prems(1) u ps ap have "h' = h1" by (simp add: d)
        with f1 show ?thesis by simp
      next
        case (Inr x)
        with Cons.prems(1) u ps ap have "add_edges_h ix items adj deg h1 = (r, h')"
          by (simp add: d)
        from Cons.IH [OF this Cons.prems(2,3)] have "frame L h1 h'" .
        with f1 show ?thesis by (rule frame_trans)
      qed
    qed
  qed
qed

lemma relax_h_frame:
  "relax_h ns deg queue h = (r, h') \<Longrightarrow> L \<le> deg \<Longrightarrow> frame L h h'"
proof (induction ns arbitrary: queue h)
  case Nil
  then show ?case by (simp add: frame_refl)
next
  case (Cons v ns)
  show ?case
  proof (cases "get_ints h deg")
    case (Inl e)
    with Cons.prems show ?thesis by (simp add: frame_refl)
  next
    case ds: (Inr ds)
    show ?thesis
    proof (cases "v < length ds")
      case False
      with Cons.prems ds show ?thesis by (simp add: frame_refl)
    next
      case True
      define ds' where "ds' = ds[v := ds ! v - 1]"
      define q1 where "q1 = (if ds' ! v = 0 then queue @ [v] else queue)"
      have f1: "frame L h (h[deg := IntList ds'])" using Cons.prems(2) by (rule frame_update)
      from Cons.prems(1) ds True have "relax_h ns deg q1 (h[deg := IntList ds']) = (r, h')"
        by (simp add: Let_def ds'_def q1_def)
      from Cons.IH [OF this Cons.prems(2)] have "frame L (h[deg := IntList ds']) h'" .
      with f1 show ?thesis by (rule frame_trans)
    qed
  qed
qed

lemma kahn_loop_h_frame:
  "kahn_loop_h adj queue deg cnt h = (r, h') \<Longrightarrow> L \<le> deg \<Longrightarrow> frame L h h'"
proof (induction adj queue deg cnt h rule: kahn_loop_h.induct)
  case (1 adj deg cnt h)
  then show ?case by (simp add: frame_refl)
next
  case (2 adj node queue deg cnt h)
  show ?case
  proof (cases "node < length adj")
    case False
    with "2.prems" show ?thesis by (simp add: frame_refl)
  next
    case node: True
    show ?thesis
    proof (cases "get_nats h (adj ! node)")
      case (Inl e)
      with "2.prems" node show ?thesis by (simp add: frame_refl)
    next
      case ns: (Inr ns)
      obtain r1 h1 where rx: "relax_h ns deg queue h = (r1, h1)"
        by (cases "relax_h ns deg queue h")
      from relax_h_frame [OF rx "2.prems"(2)] have f1: "frame L h h1" .
      show ?thesis
      proof (cases r1)
        case (Inl e)
        with "2.prems"(1) node ns rx have "h' = h1" by simp
        with f1 show ?thesis by simp
      next
        case (Inr q')
        with "2.prems"(1) node ns rx have "kahn_loop_h adj q' deg (cnt + 1) h1 = (r, h')"
          by simp
        from "2.IH" [OF node ns rx [symmetric] Inr this "2.prems"(2)] have "frame L h1 h'" .
        with f1 show ?thesis by (rule frame_trans)
      qed
    qed
  qed
qed

lemma is_acyclic_h_frame:
  assumes "is_acyclic_h commit_list h = (r, h')"
  shows "frame (length h) h h'"
proof (cases "get_decls h commit_list")
  case (Inl e)
  with assms show ?thesis by (simp add: is_acyclic_h_def frame_refl)
next
  case decls: (Inr decls)
  define L where "L = length h"
  obtain r1 h1 where bp: "build_parent_map_h decls [] h = (r1, h1)"
    by (cases "build_parent_map_h decls [] h")
  from build_parent_map_h_frame [OF bp, of L] have f1: "frame L h h1" by (simp add: L_def)
  then have L1: "L \<le> length h1" by (simp add: frame_def L_def)
  show ?thesis
  proof (cases r1)
    case (Inl e)
    with assms decls bp have "h' = h1" by (simp add: is_acyclic_h_def)
    with f1 show ?thesis by (simp add: L_def)
  next
    case pm: (Inr pm)
    show ?thesis
    proof (cases "pm = []")
      case True
      with assms decls bp pm have "h' = h1" by (simp add: is_acyclic_h_def)
      with f1 show ?thesis by (simp add: L_def)
    next
      case False
      let ?ix = "build_index (map fst pm) 0 []"
      let ?n = "length ?ix"
      obtain adj h2 where al: "alloc_lists ?n h1 = (adj, h2)" by (cases "alloc_lists ?n h1")
      obtain deg h3 where ad: "alloc (IntList (replicate ?n 0)) h2 = (deg, h3)"
        by (cases "alloc (IntList (replicate ?n 0)) h2")
      obtain r4 h4 where ae: "add_edges_h ?ix pm adj deg h3 = (r4, h4)"
        by (cases "add_edges_h ?ix pm adj deg h3")
      from alloc_lists_frame [OF al L1] have f2: "frame L h1 h2" and adjL: "\<forall>a\<in>set adj. L \<le> a"
        by simp_all
      from f2 L1 have L2: "L \<le> length h2" by (simp add: frame_def)
      from frame_alloc [OF L2 ad] have f3: "frame L h2 h3" .
      from ad L2 have degL: "L \<le> deg" by (simp add: alloc_def)
      from add_edges_h_frame [OF ae adjL degL] have f4: "frame L h3 h4" .
      from f1 f2 f3 f4 have f14: "frame L h h4" by (blast intro: frame_trans)
      have unf: "is_acyclic_h commit_list h =
        (case r4 of Inl e \<Rightarrow> (Inl e, h4)
         | Inr _ \<Rightarrow>
            (case seed_queue_h ?n deg h4 of
               Inl e \<Rightarrow> (Inl e, h4)
             | Inr queue \<Rightarrow>
                 (case kahn_loop_h adj queue deg 0 h4 of
                    (Inl e, h5) \<Rightarrow> (Inl e, h5)
                  | (Inr visited_count, h5) \<Rightarrow> (Inr (visited_count = ?n), h5))))"
        using decls bp pm False al ad ae
        by (simp add: is_acyclic_h_def Let_def split: sum.splits)
      show ?thesis
      proof (cases r4)
        case (Inl e)
        with assms unf have "h' = h4" by simp
        with f14 show ?thesis by (simp add: L_def)
      next
        case r4: (Inr x)
        show ?thesis
        proof (cases "seed_queue_h ?n deg h4")
          case (Inl e)
          with assms unf r4 have "h' = h4" by simp
          with f14 show ?thesis by (simp add: L_def)
        next
          case q: (Inr queue)
          obtain r5 h5 where kl: "kahn_loop_h adj queue deg 0 h4 = (r5, h5)"
            by (cases "kahn_loop_h adj queue deg 0 h4")
          from kahn_loop_h_frame [OF kl degL] have f5: "frame L h4 h5" .
          from assms unf r4 q kl have "h' = h5" by (cases r5) simp_all
          with f14 f5 show ?thesis by (auto simp: L_def intro: frame_trans)
        qed
      qed
    qed
  qed
qed

lemma get_strs_update:
  "get_strs (h[a := ob]) b =
     (if b = a \<and> a < length h then (case ob of StrList xs \<Rightarrow> Inr xs | _ \<Rightarrow> Inl TypeError)
      else get_strs h b)"
  by (simp add: get_strs_def)

lemma get_nats_update:
  "get_nats (h[a := ob]) b =
     (if b = a \<and> a < length h then (case ob of NatList xs \<Rightarrow> Inr xs | _ \<Rightarrow> Inl TypeError)
      else get_nats h b)"
  by (simp add: get_nats_def)

lemma get_ints_update':
  "get_ints (h[a := ob]) b =
     (if b = a \<and> a < length h then (case ob of IntList xs \<Rightarrow> Inr xs | _ \<Rightarrow> Inl TypeError)
      else get_ints h b)"
  by (simp add: get_ints_def)

lemma get_strs_bound: "get_strs h a = Inr ps \<Longrightarrow> a < length h"
  by (simp add: get_strs_def split: if_splits)

lemma get_nats_bound: "get_nats h a = Inr ns \<Longrightarrow> a < length h"
  by (simp add: get_nats_def split: if_splits)

lemma get_ints_bound: "get_ints h a = Inr ds \<Longrightarrow> a < length h"
  by (simp add: get_ints_def split: if_splits)

lemma frame_nth:
  assumes "frame L h h'" and "a < L" and "L \<le> length h"
  shows "h' ! a = h ! a" and "a < length h'"
proof -
  from assms have "take L h' ! a = take L h ! a" by (simp add: frame_def)
  with assms(2) show "h' ! a = h ! a" by simp
  from assms show "a < length h'" by (simp add: frame_def)
qed

lemma frame_get_strs:
  assumes "frame L h h'" and "a < L" and "L \<le> length h"
  shows "get_strs h' a = get_strs h a"
  using frame_nth [OF assms] assms(2,3) by (simp add: get_strs_def)

lemma denotes_nth:
  "denotes h ds cl \<longleftrightarrow>
     length ds = length cl \<and>
     (\<forall>i<length ds. fst (ds ! i) = fst (cl ! i) \<and> get_strs h (snd (ds ! i)) = Inr (snd (cl ! i)))"
  by (simp add: denotes_def list_all2_conv_all_nth)

lemma denotes_bound:
  assumes "denotes h ds cl" and "d \<in> set ds"
  shows "snd d < length h"
proof -
  from assms(2) obtain i where "i < length ds" and "ds ! i = d" by (auto simp: in_set_conv_nth)
  with assms(1) have "get_strs h (snd d) = Inr (snd (cl ! i))" by (auto simp: denotes_nth)
  then show ?thesis by (rule get_strs_bound)
qed

lemma denotes_frame:
  assumes d: "denotes h ds cl" and f: "frame L h h'" and L: "L \<le> length h"
    and b: "\<forall>d\<in>set ds. snd d < L"
  shows "denotes h' ds cl"
  unfolding denotes_nth
proof (intro conjI allI impI)
  from d show "length ds = length cl" by (simp add: denotes_nth)
  fix i assume i: "i < length ds"
  with d show "fst (ds ! i) = fst (cl ! i)" by (simp add: denotes_nth)
  from i b have "snd (ds ! i) < L" by simp
  from frame_get_strs [OF f this L] d i
  show "get_strs h' (snd (ds ! i)) = Inr (snd (cl ! i))" by (simp add: denotes_nth)
qed

lemma denotes_keys: "denotes h ds cl \<Longrightarrow> map fst ds = map fst cl"
  unfolding denotes_def by (induction rule: list_all2_induct) simp_all

lemma denotes_dict_set:
  assumes "denotes h pm_h pm" and "get_strs h a = Inr ps"
  shows "denotes h (dict_set c a pm_h) (dict_set c ps pm)"
  using assms unfolding denotes_def
  by (induction rule: list_all2_induct) auto

lemma denotes_Nil: "denotes h [] []"
  by (simp add: denotes_def)

lemma denotes_Cons:
  "denotes h (d # ds) cl \<longleftrightarrow>
     (\<exists>ps cl'. cl = (fst d, ps) # cl' \<and> get_strs h (snd d) = Inr ps \<and> denotes h ds cl')"
  unfolding denotes_def by (cases cl) auto

lemma build_parent_map_h_sim:
  assumes "denotes h ds cl" and "denotes h pm_h pm"
  shows "\<exists>pm_h' h'. build_parent_map_h ds pm_h h = (Inr pm_h', h') \<and>
           denotes h' pm_h' (build_parent_map cl pm)"
  using assms
proof (induction ds arbitrary: cl pm_h pm h)
  case Nil
  then show ?case by (simp add: denotes_def)
next
  case (Cons d ds)
  obtain c pa where d: "d = (c, pa)" by (cases d)
  from Cons.prems(1) obtain ps cl' where cl: "cl = (c, ps) # cl'"
    and g: "get_strs h pa = Inr ps" and rest: "denotes h ds cl'"
    unfolding d denotes_Cons by auto
  define h1 where "h1 = h @ [StrList ps]"
  have al: "alloc (StrList ps) h = (length h, h1)" by (simp add: alloc_def h1_def)
  have f: "frame (length h) h h1" using al by (rule frame_alloc [OF le_refl])
  have b: "\<forall>d\<in>set xs. snd d < length h" if "denotes h xs ys" for xs ys
    using denotes_bound [OF that] by blast
  have rest1: "denotes h1 ds cl'"
    using rest f le_refl b [OF rest] by (rule denotes_frame)
  have pm1: "denotes h1 pm_h pm"
    using Cons.prems(2) f le_refl b [OF Cons.prems(2)] by (rule denotes_frame)
  have "get_strs h1 (length h) = Inr ps" by (simp add: get_strs_def h1_def)
  with pm1 have "denotes h1 (dict_set c (length h) pm_h) (dict_set c ps pm)"
    by (rule denotes_dict_set)
  from Cons.IH [OF rest1 this] obtain pm_h' h' where
    "build_parent_map_h ds (dict_set c (length h) pm_h) h1 = (Inr pm_h', h')"
    and "denotes h' pm_h' (build_parent_map cl' (dict_set c ps pm))" by blast
  then show ?case using g al by (simp add: d cl)
qed

lemma alloc_lists_eq:
  "alloc_lists n h = ([length h..<length h + n], h @ replicate n (NatList []))"
proof (induction n arbitrary: h)
  case 0
  then show ?case by simp
next
  case (Suc n)
  have "[length h..<length h + Suc n] = length h # [Suc (length h)..<Suc (length h) + n]"
    using upt_conv_Cons [of "length h" "length h + Suc n"] by simp
  moreover have "h @ replicate (Suc n) (NatList []) = (h @ [NatList []]) @ replicate n (NatList [])"
    by simp
  ultimately show ?case by (simp add: alloc_def Suc.IH del: replicate_Suc)
qed

lemma graph_at_init:
  assumes "alloc_lists n h1 = (adj_a, h2)" and "alloc (IntList (replicate n 0)) h2 = (deg_a, h3)"
  shows "graph_at h3 adj_a deg_a (replicate n []) (replicate n 0)"
proof -
  from assms(1) have adj: "adj_a = [length h1..<length h1 + n]"
    and h2: "h2 = h1 @ replicate n (NatList [])"
    by (simp_all add: alloc_lists_eq)
  from assms(2) have deg: "deg_a = length h2" and h3: "h3 = h2 @ [IntList (replicate n 0)]"
    by (auto simp: alloc_def)
  have "get_nats h3 (adj_a ! i) = Inr []" if "i < n" for i
    using that by (simp add: adj h3 h2 get_nats_def nth_append)
  then have "list_all2 (\<lambda>a ns. get_nats h3 a = Inr ns) adj_a (replicate n [])"
    by (simp add: list_all2_conv_all_nth adj)
  moreover have "get_ints h3 deg_a = Inr (replicate n 0)"
    by (simp add: deg h3 get_ints_def)
  moreover have "distinct adj_a" and "deg_a \<notin> set adj_a"
    by (simp_all add: adj deg h2)
  ultimately show ?thesis by (simp add: graph_at_def)
qed

lemma graph_atD:
  assumes "graph_at h adj_a deg_a adj deg"
  shows "length adj_a = length adj"
    and "\<And>i. i < length adj \<Longrightarrow> get_nats h (adj_a ! i) = Inr (adj ! i)"
    and "get_ints h deg_a = Inr deg"
    and "distinct adj_a" and "deg_a \<notin> set adj_a"
  using assms by (auto simp: graph_at_def list_all2_conv_all_nth)

lemma graph_atI:
  assumes "length adj_a = length adj"
    and "\<And>i. i < length adj \<Longrightarrow> get_nats h (adj_a ! i) = Inr (adj ! i)"
    and "get_ints h deg_a = Inr deg"
    and "distinct adj_a" and "deg_a \<notin> set adj_a"
  shows "graph_at h adj_a deg_a adj deg"
  using assms by (simp add: graph_at_def list_all2_conv_all_nth)

lemma graph_at_add_edge:
  assumes g: "graph_at h adj_a deg_a adj deg" and u: "u < length adj"
  shows "graph_at ((h[adj_a ! u := NatList (adj ! u @ [v])])[deg_a := IntList deg'])
           adj_a deg_a (adj[u := adj ! u @ [v]]) deg'"
proof (rule graph_atI)
  note G = graph_atD [OF g]
  show "length adj_a = length (adj[u := adj ! u @ [v]])" using G(1) by simp
  show "distinct adj_a" and "deg_a \<notin> set adj_a" by (rule G)+
  from G(3) have "deg_a < length h" by (rule get_ints_bound)
  then show "get_ints ((h[adj_a ! u := NatList (adj ! u @ [v])])[deg_a := IntList deg']) deg_a = Inr deg'"
    by (simp add: get_ints_update')
  fix i assume "i < length (adj[u := adj ! u @ [v]])"
  then have i: "i < length adj" by simp
  with G(1,5) have ne: "adj_a ! i \<noteq> deg_a" by (metis nth_mem)
  from G(2) [OF u] have ub: "adj_a ! u < length h" by (rule get_nats_bound)
  show "get_nats ((h[adj_a ! u := NatList (adj ! u @ [v])])[deg_a := IntList deg']) (adj_a ! i)
          = Inr ((adj[u := adj ! u @ [v]]) ! i)"
  proof (cases "i = u")
    case True
    with ne ub u show ?thesis by (simp add: get_nats_update)
  next
    case False
    with G(1,4) i u have "adj_a ! i \<noteq> adj_a ! u" by (simp add: nth_eq_iff_index_eq)
    with ne False G(2) [OF i] show ?thesis by (simp add: get_nats_update)
  qed
qed

lemma graph_at_deg_update:
  assumes g: "graph_at h adj_a deg_a adj deg"
    and len: "length h' = length h" and same: "\<forall>b. b \<noteq> deg_a \<longrightarrow> h' ! b = h ! b"
    and d: "get_ints h' deg_a = Inr deg'"
  shows "graph_at h' adj_a deg_a adj deg'"
proof (rule graph_atI)
  note G = graph_atD [OF g]
  show "length adj_a = length adj" and "distinct adj_a" and "deg_a \<notin> set adj_a"
    and "get_ints h' deg_a = Inr deg'" by (rule G d)+
  fix i assume i: "i < length adj"
  with G(1,5) have ne: "adj_a ! i \<noteq> deg_a" by (metis nth_mem)
  with same len have "get_nats h' (adj_a ! i) = get_nats h (adj_a ! i)"
    by (simp add: get_nats_def)
  with G(2) [OF i] show "get_nats h' (adj_a ! i) = Inr (adj ! i)" by simp
qed

lemma add_parents_h_sim:
  assumes "graph_at h adj_a deg_a adj deg"
  shows "case add_parents ix u ps adj deg of
           Inl e \<Rightarrow> fst (add_parents_h ix u ps adj_a deg_a h) = Inl e
         | Inr (adj', deg') \<Rightarrow>
             \<exists>h'. add_parents_h ix u ps adj_a deg_a h = (Inr (), h') \<and>
                  graph_at h' adj_a deg_a adj' deg'"
  using assms
proof (induction ps arbitrary: h adj deg)
  case Nil
  then show ?case by simp
next
  case (Cons p ps)
  note G = graph_atD [OF Cons.prems]
  show ?case
  proof (cases "dict_get ix p")
    case (Inl e)
    then show ?thesis by simp
  next
    case v: (Inr v)
    show ?thesis
    proof (cases "u < length adj")
      case False
      with v G(1) show ?thesis by simp
    next
      case u: True
      define h1 where "h1 = h[adj_a ! u := NatList (adj ! u @ [v])]"
      from G(1,5) u have ne: "adj_a ! u \<noteq> deg_a" by (metis nth_mem)
      have gi: "get_ints h1 deg_a = Inr deg"
        using G(3) ne by (simp add: h1_def get_ints_update')
      show ?thesis
      proof (cases "v < length deg")
        case False
        with v u G(1) G(2) [OF u] gi show ?thesis by (simp add: h1_def [symmetric])
      next
        case True
        define h2 where "h2 = h1[deg_a := IntList (deg[v := deg ! v + 1])]"
        have "graph_at h2 adj_a deg_a (adj[u := adj ! u @ [v]]) (deg[v := deg ! v + 1])"
          unfolding h2_def h1_def using Cons.prems u by (rule graph_at_add_edge)
        from Cons.IH [OF this]
        have ih: "case add_parents ix u ps (adj[u := adj ! u @ [v]]) (deg[v := deg ! v + 1]) of
           Inl e \<Rightarrow> fst (add_parents_h ix u ps adj_a deg_a h2) = Inl e
         | Inr (adj', deg') \<Rightarrow>
             \<exists>h'. add_parents_h ix u ps adj_a deg_a h2 = (Inr (), h') \<and>
                  graph_at h' adj_a deg_a adj' deg'" .
        have l: "add_parents ix u (p # ps) adj deg
                   = add_parents ix u ps (adj[u := adj ! u @ [v]]) (deg[v := deg ! v + 1])"
          using v u True by simp
        have r: "add_parents_h ix u (p # ps) adj_a deg_a h = add_parents_h ix u ps adj_a deg_a h2"
          using v u True G(1) G(2) [OF u] gi by (simp add: h1_def [symmetric] h2_def)
        show ?thesis unfolding l r by (rule ih)
      qed
    qed
  qed
qed

lemma add_edges_h_sim:
  assumes "graph_at h adj_a deg_a adj deg" and "denotes h items_h items"
    and "\<forall>d\<in>set items_h. snd d < L" and "\<forall>a\<in>set adj_a. L \<le> a" and "L \<le> deg_a"
    and "L \<le> length h"
  shows "case add_edges ix items adj deg of
           Inl e \<Rightarrow> fst (add_edges_h ix items_h adj_a deg_a h) = Inl e
         | Inr (adj', deg') \<Rightarrow>
             \<exists>h'. add_edges_h ix items_h adj_a deg_a h = (Inr (), h') \<and>
                  graph_at h' adj_a deg_a adj' deg'"
  using assms
proof (induction items_h arbitrary: h adj deg items)
  case Nil
  then show ?case by (simp add: denotes_def)
next
  case (Cons d items_h)
  obtain c pa where d: "d = (c, pa)" by (cases d)
  from Cons.prems(2) obtain ps rest where items: "items = (c, ps) # rest"
    and g: "get_strs h pa = Inr ps" and den: "denotes h items_h rest"
    unfolding d denotes_Cons by auto
  show ?case
  proof (cases "dict_get ix c")
    case (Inl e)
    then show ?thesis by (simp add: d items)
  next
    case u: (Inr u)
    note ap = add_parents_h_sim [OF Cons.prems(1), of ix u ps]
    show ?thesis
    proof (cases "add_parents ix u ps adj deg")
      case (Inl e)
      with ap have "fst (add_parents_h ix u ps adj_a deg_a h) = Inl e" by simp
      then obtain h1 where "add_parents_h ix u ps adj_a deg_a h = (Inl e, h1)"
        by (cases "add_parents_h ix u ps adj_a deg_a h") simp
      with Inl u g show ?thesis by (simp add: d items)
    next
      case (Inr res)
      obtain adj1 deg1 where res: "res = (adj1, deg1)" by (cases res)
      from ap Inr res obtain h1 where r1: "add_parents_h ix u ps adj_a deg_a h = (Inr (), h1)"
        and g1: "graph_at h1 adj_a deg_a adj1 deg1" by auto
      from add_parents_h_frame [OF r1 Cons.prems(4,5)] have f: "frame L h h1" .
      have b': "\<forall>d\<in>set items_h. snd d < L" using Cons.prems(3) by simp
      have den1: "denotes h1 items_h rest"
        by (rule denotes_frame [OF den f Cons.prems(6) b'])
      have L1: "L \<le> length h1" using f Cons.prems(6) by (simp add: frame_def)
      note ih = Cons.IH [OF g1 den1 b' Cons.prems(4,5) L1]
      have l: "add_edges ix items adj deg = add_edges ix rest adj1 deg1"
        using u Inr res by (simp add: items)
      have r: "add_edges_h ix (d # items_h) adj_a deg_a h
                       = add_edges_h ix items_h adj_a deg_a h1"
        using u g r1 by (simp add: d)
      show ?thesis unfolding l r by (rule ih)
    qed
  qed
qed

lemma relax_h_sim:
  assumes "get_ints h deg_a = Inr deg"
  shows "case relax ns deg q of
           Inl e \<Rightarrow> fst (relax_h ns deg_a q h) = Inl e
         | Inr (deg', q') \<Rightarrow>
             \<exists>h'. relax_h ns deg_a q h = (Inr q', h') \<and> get_ints h' deg_a = Inr deg' \<and>
                  length h' = length h \<and> (\<forall>b. b \<noteq> deg_a \<longrightarrow> h' ! b = h ! b)"
  using assms
proof (induction ns arbitrary: h deg q)
  case Nil
  then show ?case by simp
next
  case (Cons v ns)
  show ?case
  proof (cases "v < length deg")
    case False
    with Cons.prems show ?thesis by simp
  next
    case True
    define deg1 where "deg1 = deg[v := deg ! v - 1]"
    define q1 where "q1 = (if deg1 ! v = 0 then q @ [v] else q)"
    define h1 where "h1 = h[deg_a := IntList deg1]"
    have g1: "get_ints h1 deg_a = Inr deg1"
      unfolding h1_def using Cons.prems by (rule get_ints_update)
    have l: "relax (v # ns) deg q = relax ns deg1 q1"
      using True by (simp add: Let_def deg1_def q1_def)
    have r: "relax_h (v # ns) deg_a q h = relax_h ns deg_a q1 h1"
      using True Cons.prems by (simp add: Let_def deg1_def q1_def h1_def)
    have same: "length h1 = length h" "\<forall>b. b \<noteq> deg_a \<longrightarrow> h1 ! b = h ! b"
      by (simp_all add: h1_def)
    from Cons.IH [OF g1, of q1] same show ?thesis
      unfolding l r by (cases "relax ns deg1 q1") auto
  qed
qed

lemma kahn_loop_h_sim:
  "graph_at h adj_a deg_a adj deg \<Longrightarrow>
     fst (kahn_loop_h adj_a q deg_a cnt h) = kahn_loop adj q deg cnt"
proof (induction adj q deg cnt arbitrary: h rule: kahn_loop.induct)
  case (1 adj deg cnt)
  then show ?case by simp
next
  case (2 adj node queue deg cnt)
  note G = graph_atD [OF "2.prems"]
  show ?case
  proof (cases "node < length adj")
    case False
    with G(1) show ?thesis by simp
  next
    case node: True
    note rs = relax_h_sim [OF G(3), of "adj ! node" queue]
    show ?thesis
    proof (cases "relax (adj ! node) deg queue")
      case (Inl e)
      with rs have "fst (relax_h (adj ! node) deg_a queue h) = Inl e" by simp
      then obtain h1 where "relax_h (adj ! node) deg_a queue h = (Inl e, h1)"
        by (cases "relax_h (adj ! node) deg_a queue h") simp
      with Inl node G(1) G(2) [OF node] show ?thesis by simp
    next
      case (Inr res)
      obtain deg' q' where res: "res = (deg', q')" by (cases res)
      from rs Inr res obtain h1 where r1: "relax_h (adj ! node) deg_a queue h = (Inr q', h1)"
        and g1: "get_ints h1 deg_a = Inr deg'" and len: "length h1 = length h"
        and same: "\<forall>b. b \<noteq> deg_a \<longrightarrow> h1 ! b = h ! b" by auto
      have "graph_at h1 adj_a deg_a adj deg'"
        using "2.prems" len same g1 by (rule graph_at_deg_update)
      from "2.IH" [OF node Inr res [symmetric] this]
      have "fst (kahn_loop_h adj_a q' deg_a (cnt + 1) h1) = kahn_loop adj q' deg' (cnt + 1)" .
      with Inr res r1 node G(1) G(2) [OF node] show ?thesis by simp
    qed
  qed
qed

lemma dict_set_values: "snd ` set (dict_set k v d) \<subseteq> insert v (snd ` set d)"
  by (induction d) (force split: if_splits)+

lemma build_parent_map_h_fresh:
  "build_parent_map_h ds pm h = (Inr pm', h') \<Longrightarrow> \<forall>d\<in>set pm. L \<le> snd d \<Longrightarrow> L \<le> length h \<Longrightarrow>
     \<forall>d\<in>set pm'. L \<le> snd d"
proof (induction ds arbitrary: pm h)
  case Nil
  then show ?case by simp
next
  case (Cons d ds)
  obtain c pa where d: "d = (c, pa)" by (cases d)
  from Cons.prems(1) obtain ps where g: "get_strs h pa = Inr ps"
    by (cases "get_strs h pa") (simp_all add: d)
  with Cons.prems(1)
  have r: "build_parent_map_h ds (dict_set c (length h) pm) (h @ [StrList ps]) = (Inr pm', h')"
    by (simp add: d alloc_def)
  have "\<forall>d\<in>set (dict_set c (length h) pm). L \<le> snd d"
    using dict_set_values [of c "length h" pm] Cons.prems(2,3) by fastforce
  from Cons.IH [OF r this] Cons.prems(3) show ?case by simp
qed

lemma is_acyclic_h_refines:
  assumes gd: "get_decls h a = Inr ds" and den: "denotes h ds cl"
  shows "fst (is_acyclic_h a h) = is_acyclic cl"
proof -
  define pm where "pm = build_parent_map cl []"
  from build_parent_map_h_sim [OF den denotes_Nil] obtain pm_h h1 where
    bp: "build_parent_map_h ds [] h = (Inr pm_h, h1)" and den1: "denotes h1 pm_h pm"
    unfolding pm_def by blast
  from den1 have keys: "map fst pm_h = map fst pm" by (rule denotes_keys)
  then have emp: "pm_h = [] \<longleftrightarrow> pm = []" by (metis map_is_Nil_conv)
  show ?thesis
  proof (cases "pm = []")
    case True
    with emp gd bp show ?thesis
      by (simp add: is_acyclic_h_def is_acyclic_def pm_def [symmetric])
  next
    case False
    let ?ix = "build_index (map fst pm) 0 []"
    let ?n = "length ?ix"
    obtain adj_a h2 where al: "alloc_lists ?n h1 = (adj_a, h2)" by (cases "alloc_lists ?n h1")
    obtain deg_a h3 where ad: "alloc (IntList (replicate ?n 0)) h2 = (deg_a, h3)"
      by (cases "alloc (IntList (replicate ?n 0)) h2")
    from graph_at_init [OF al ad] have g3: "graph_at h3 adj_a deg_a (replicate ?n []) (replicate ?n 0)" .
    define L where "L = length h1"
    from alloc_lists_frame [OF al, of L] have f2: "frame L h1 h2" and adjL: "\<forall>a\<in>set adj_a. L \<le> a"
      by (simp_all add: L_def)
    from f2 have L2: "L \<le> length h2" by (simp add: frame_def L_def)
    from frame_alloc [OF L2 ad] have f3: "frame L h2 h3" .
    from ad L2 have degL: "L \<le> deg_a" by (simp add: alloc_def)
    from f3 L2 have L3: "L \<le> length h3" by (simp add: frame_def)
    have b: "\<forall>d\<in>set pm_h. snd d < L"
      using denotes_bound [OF den1] by (simp add: L_def)
    have den3: "denotes h3 pm_h pm"
      using den1 frame_trans [OF f2 f3] _ b by (rule denotes_frame) (simp add: L_def)
    note sim = add_edges_h_sim [OF g3 den3 b adjL degL L3, of ?ix]
    have unf_h: "is_acyclic_h a h =
        (case add_edges_h ?ix pm_h adj_a deg_a h3 of
           (Inl e, h4) \<Rightarrow> (Inl e, h4)
         | (Inr _, h4) \<Rightarrow>
            (case seed_queue_h ?n deg_a h4 of
               Inl e \<Rightarrow> (Inl e, h4)
             | Inr queue \<Rightarrow>
                 (case kahn_loop_h adj_a queue deg_a 0 h4 of
                    (Inl e, h5) \<Rightarrow> (Inl e, h5)
                  | (Inr visited_count, h5) \<Rightarrow> (Inr (visited_count = ?n), h5))))"
      using gd bp False emp al ad
      by (simp add: is_acyclic_h_def Let_def keys)
    have unf: "is_acyclic cl =
        (case add_edges ?ix pm (replicate ?n []) (replicate ?n 0) of
           Inl e \<Rightarrow> Inl e
         | Inr (adj, in_degree) \<Rightarrow>
             (case kahn_loop adj (seed_queue ?n in_degree) in_degree 0 of
                Inl e \<Rightarrow> Inl e
              | Inr visited_count \<Rightarrow> Inr (visited_count = ?n)))"
      using False
      by (simp add: is_acyclic_def build_graph_def Let_def pm_def [symmetric] split: sum.splits)
    show ?thesis
    proof (cases "add_edges ?ix pm (replicate ?n []) (replicate ?n 0)")
      case (Inl e)
      with sim have "fst (add_edges_h ?ix pm_h adj_a deg_a h3) = Inl e" by simp
      then obtain h4 where "add_edges_h ?ix pm_h adj_a deg_a h3 = (Inl e, h4)"
        by (cases "add_edges_h ?ix pm_h adj_a deg_a h3") simp
      with Inl show ?thesis unfolding unf unf_h by simp
    next
      case (Inr res)
      obtain adj deg where res: "res = (adj, deg)" by (cases res)
      from sim Inr res obtain h4 where ae: "add_edges_h ?ix pm_h adj_a deg_a h3 = (Inr (), h4)"
        and g4: "graph_at h4 adj_a deg_a adj deg" by auto
      from graph_atD(3) [OF g4] have sq: "seed_queue_h ?n deg_a h4 = Inr (seed_queue ?n deg)"
        by (simp add: seed_queue_h_def)
      from kahn_loop_h_sim [OF g4, of "seed_queue ?n deg" 0]
      have k: "fst (kahn_loop_h adj_a (seed_queue ?n deg) deg_a 0 h4)
                 = kahn_loop adj (seed_queue ?n deg) deg 0" .
      obtain r5 h5 where kh: "kahn_loop_h adj_a (seed_queue ?n deg) deg_a 0 h4 = (r5, h5)"
        by (cases "kahn_loop_h adj_a (seed_queue ?n deg) deg_a 0 h4")
      with k have "kahn_loop adj (seed_queue ?n deg) deg 0 = r5" by simp
      with Inr res ae sq kh show ?thesis unfolding unf unf_h by (cases r5) simp_all
    qed
  qed
qed

subsection \<open>Faults and superseded declarations\<close>

lemma is_acyclic_fault_iff:
  "(\<exists>q. is_acyclic cl = Inl (KeyError q)) \<longleftrightarrow> dangling cl \<noteq> {}"
proof (cases "snd ` decl_edges cl \<subseteq> declared cl")
  case True
  from is_acyclic_correct [OF True] True show ?thesis by (simp add: dangling_empty)
next
  case False
  from is_acyclic_dangling [OF False] False show ?thesis by (auto simp: dangling_empty)
qed

lemma dangling_remove_non_final: "dangling (remove_non_final cl) = dangling cl"
proof -
  have "decl_edges (remove_non_final cl) = decl_edges cl"
    by (rule decl_edges_cong) (simp only: effective_parents_remove_non_final)
  then show ?thesis by (simp add: dangling_def declared_remove_non_final)
qed

subsection \<open>The scenarios of the test suite\<close>

text \<open>The model returns what \<^verbatim>\<open>dag_checker_tests.py\<close> expects on its small inputs.\<close>

lemma test_scenarios:
  "is_acyclic [(''root'', [])] = Inr True"
  "is_acyclic [(''a1'', []), (''b2'', [''a1'']), (''c3'', [''b2''])] = Inr True"
  "is_acyclic [(''root'', []), (''x'', [''root'']), (''y'', [''root'']), (''m'', [''x'', ''y''])]
     = Inr True"
  "is_acyclic [(''A'', [''B'']), (''B'', [''A''])] = Inr False"
  "is_acyclic [(''A'', [''B'']), (''B'', [''C'']), (''C'', [''A''])] = Inr False"
  "is_acyclic [(''root1'', []), (''root2'', []), (''a1'', [''root1'']), (''b1'', [''root2'']),
               (''m'', [''a1'', ''b1''])] = Inr True"
  "is_acyclic [(''root1'', [''mergeX'']), (''root2'', []), (''devA'', [''root1'']),
               (''devB'', [''devA'']), (''mergeX'', [''devB'', ''devA''])] = Inr False"
  "is_acyclic [(''A'', [''B'']), (''B'', [''C'']), (''C'', [''A'']), (''A'', [''C''])] = Inr False"
  "is_acyclic [(''A'', [''B'']), (''B'', []), (''A'', [])] = Inr True"
  by (simp_all add: is_acyclic_def build_graph_def seed_queue_def)

section \<open>Properties\<close>

text \<open>
  C1. For every declaration sequence in which every parent identifier is also declared,
  the checker returns a boolean, and it returns true exactly when the graph of the
  last-write-wins parent map has no directed cycle; since the returned boolean is the
  test \<^verbatim>\<open>visited_count == n\<close>, the visited count equals the node count exactly
  when the graph is acyclic.
\<close>

theorem is_acyclic_iff_acyclic:
  assumes "\<forall>(c, ps)\<in>set cl. set ps \<subseteq> declared cl"
  shows "is_acyclic cl = Inr (acyclic (decl_edges cl))"
proof (rule is_acyclic_correct)
  show "snd ` decl_edges cl \<subseteq> declared cl"
    using assms by (rule parents_declared_closed)
qed

theorem is_acyclic_iff_acyclic_witness:
  "is_acyclic [(''a1'', []), (''b2'', [''a1'']), (''c3'', [''b2''])] = Inr True \<and>
   acyclic (decl_edges [(''a1'', []), (''b2'', [''a1'']), (''c3'', [''b2''])])"
proof -
  have e: "is_acyclic [(''a1'', []), (''b2'', [''a1'']), (''c3'', [''b2''])] = Inr True"
    by (simp add: is_acyclic_def build_graph_def seed_queue_def)
  have "is_acyclic [(''a1'', []), (''b2'', [''a1'']), (''c3'', [''b2''])]
          = Inr (acyclic (decl_edges [(''a1'', []), (''b2'', [''a1'']), (''c3'', [''b2''])]))"
    by (rule is_acyclic_iff_acyclic) (simp add: declared_def)
  with e show ?thesis by simp
qed

text \<open>
  C6. The empty declaration sequence yields true: with no declaration the parent map is
  empty and the checker returns at its first test.
\<close>

theorem is_acyclic_empty: "is_acyclic [] = Inr True"
  by (simp add: is_acyclic_def)

text \<open>
  C2, counterexample. A sequence can contain a parent identifier that is never declared
  and still make the checker return a boolean: a later declaration of the same identifier
  supersedes the parent list that held the undeclared identifier, so the lookup of line
  23 never sees it.
\<close>

theorem dangling_overridden_counterexample:
  "''Z'' \<in> set (snd (hd [(''A'', [''Z'']), (''A'', [])])) \<and>
   ''Z'' \<notin> declared [(''A'', [''Z'']), (''A'', [])] \<and>
   is_acyclic [(''A'', [''Z'']), (''A'', [])] = Inr True"
  by (simp add: is_acyclic_def build_graph_def declared_def seed_queue_def)

text \<open>
  C2, as amended. When the effective parent list of some identifier contains an
  identifier that is never declared, the checker does not return a boolean: the lookup in
  the index map raises a missing-key error, for an undeclared effective parent. When no
  effective parent list contains an undeclared identifier, the checker returns a boolean,
  the acyclicity of the graph: an undeclared parent that occurs only in superseded
  declarations causes no fault.
\<close>

theorem dangling_effective_parent_faults:
  "(dangling cl \<noteq> {} \<longrightarrow> (\<exists>q\<in>dangling cl. is_acyclic cl = Inl (KeyError q))) \<and>
   (dangling cl = {} \<longrightarrow> is_acyclic cl = Inr (acyclic (decl_edges cl)))"
proof (intro conjI impI)
  assume "dangling cl \<noteq> {}"
  then have "\<not> snd ` decl_edges cl \<subseteq> declared cl" by (simp add: dangling_empty)
  from is_acyclic_dangling [OF this]
  show "\<exists>q\<in>dangling cl. is_acyclic cl = Inl (KeyError q)" by (auto simp: dangling_def)
next
  assume "dangling cl = {}"
  then have "snd ` decl_edges cl \<subseteq> declared cl" by (simp add: dangling_empty)
  then show "is_acyclic cl = Inr (acyclic (decl_edges cl))" by (rule is_acyclic_correct)
qed

theorem dangling_effective_parent_faults_witness:
  "''Z'' \<in> dangling [(''A'', [''Z''])] \<and>
   is_acyclic [(''A'', [''Z''])] = Inl (KeyError ''Z'') \<and>
   dangling [(''A'', [''Z'']), (''A'', [])] = {} \<and>
   is_acyclic [(''A'', [''Z'']), (''A'', [])] = Inr True \<and>
   acyclic (decl_edges [(''A'', [''Z'']), (''A'', [])])"
proof -
  have "(''A'', ''Z'') \<in> decl_edges [(''A'', [''Z''])]"
    by (simp add: decl_edges_def effective_parents_def)
  then have "''Z'' \<in> snd ` decl_edges [(''A'', [''Z''])]" by force
  then have "''Z'' \<in> dangling [(''A'', [''Z''])]" by (simp add: dangling_def declared_def)
  then have "dangling [(''A'', [''Z''])] \<noteq> {}" by blast
  with dangling_effective_parent_faults [of "[(''A'', [''Z''])]"] obtain q where
    q: "q \<in> dangling [(''A'', [''Z''])]" "is_acyclic [(''A'', [''Z''])] = Inl (KeyError q)"
    by blast
  have e1: "is_acyclic [(''A'', [''Z''])] = Inl (KeyError ''Z'')"
    by (simp add: is_acyclic_def build_graph_def)
  have "decl_edges [(''A'', [''Z'']), (''A'', [])] = {}"
    by (auto simp: decl_edges_def effective_parents_def split: if_splits)
  then have d2: "dangling [(''A'', [''Z'']), (''A'', [])] = {}" by (simp add: dangling_def)
  with dangling_effective_parent_faults [of "[(''A'', [''Z'']), (''A'', [])]"]
  have r2: "is_acyclic [(''A'', [''Z'']), (''A'', [])]
              = Inr (acyclic (decl_edges [(''A'', [''Z'']), (''A'', [])]))" by blast
  have e2: "is_acyclic [(''A'', [''Z'']), (''A'', [])] = Inr True"
    by (simp add: is_acyclic_def build_graph_def seed_queue_def)
  from q e1 d2 r2 e2 show ?thesis by simp
qed

text \<open>
  C3, counterexample. The results on a sequence and on the sequence without its
  superseded declarations are not always equal: when both calls raise, the missing key
  reported can differ, since the removal changes the order in which the dictionary is
  filled and so the parent that line 23 looks up first.
\<close>

theorem override_fault_key_counterexample:
  "remove_non_final [(''B'', [''Y'']), (''A'', [''Z'']), (''B'', [''X''])]
     = [(''A'', [''Z'']), (''B'', [''X''])] \<and>
   is_acyclic [(''B'', [''Y'']), (''A'', [''Z'']), (''B'', [''X''])] = Inl (KeyError ''X'') \<and>
   is_acyclic [(''A'', [''Z'']), (''B'', [''X''])] = Inl (KeyError ''Z'')"
  by (simp add: is_acyclic_def build_graph_def declared_def)

text \<open>
  C3, as amended. Override semantics are last-write-wins: the parent list stored for an
  identifier is the one of its last declaration; the checker returns a boolean on a
  sequence exactly when it returns the same boolean on the sequence without the
  superseded declarations; one call raises a missing-key error exactly when the other
  does; when every effective parent is declared the two results are equal; and a
  declaration repeated with the same parents behaves as the single declaration.
\<close>

theorem override_last_write_wins:
  "(\<forall>pre x ps post. cl = pre @ (x, ps) # post \<and> x \<notin> declared post \<longrightarrow>
      dict_get (build_parent_map cl []) x = Inr ps) \<and>
   (\<forall>b. is_acyclic cl = Inr b \<longleftrightarrow> is_acyclic (remove_non_final cl) = Inr b) \<and>
   ((\<exists>q. is_acyclic cl = Inl (KeyError q)) \<longleftrightarrow>
      (\<exists>q. is_acyclic (remove_non_final cl) = Inl (KeyError q))) \<and>
   (dangling cl = {} \<longrightarrow> is_acyclic (remove_non_final cl) = is_acyclic cl) \<and>
   is_acyclic [(x, p), (x, p)] = is_acyclic [(x, p)]"
proof -
  have e: "decl_edges cl = decl_edges (remove_non_final cl)"
    by (rule decl_edges_cong) (simp only: effective_parents_remove_non_final)
  have d: "declared cl = declared (remove_non_final cl)"
    by (simp only: declared_remove_non_final)
  have c1: "\<forall>pre x ps post. cl = pre @ (x, ps) # post \<and> x \<notin> declared post \<longrightarrow>
      dict_get (build_parent_map cl []) x = Inr ps"
    by (simp add: parent_map_lookup effective_parents_last)
  have c2: "\<forall>b. is_acyclic cl = Inr b \<longleftrightarrow> is_acyclic (remove_non_final cl) = Inr b"
    using is_acyclic_same_graph [OF e d] by blast
  have c3: "(\<exists>q. is_acyclic cl = Inl (KeyError q)) \<longleftrightarrow>
      (\<exists>q. is_acyclic (remove_non_final cl) = Inl (KeyError q))"
    by (simp only: is_acyclic_fault_iff dangling_remove_non_final)
  have c4: "dangling cl = {} \<longrightarrow> is_acyclic (remove_non_final cl) = is_acyclic cl"
  proof
    assume "dangling cl = {}"
    then have "snd ` decl_edges cl \<subseteq> declared cl" by (simp add: dangling_empty)
    with e d show "is_acyclic (remove_non_final cl) = is_acyclic cl"
      by (rule is_acyclic_same_graph_closed)
  qed
  from c1 c2 c3 c4 is_acyclic_duplicate [of x p] show ?thesis by (intro conjI)
qed

theorem override_last_write_wins_witness:
  "dict_get (build_parent_map [(''A'', [''B'']), (''B'', []), (''A'', [])] []) ''A'' = Inr [] \<and>
   remove_non_final [(''A'', [''B'']), (''B'', []), (''A'', [])] = [(''B'', []), (''A'', [])] \<and>
   dangling [(''A'', [''B'']), (''B'', []), (''A'', [])] = {} \<and>
   is_acyclic [(''A'', [''B'']), (''B'', []), (''A'', [])] = Inr True \<and>
   is_acyclic [(''B'', []), (''A'', [])] = Inr True"
proof -
  let ?cl = "[(''A'', [''B'']), (''B'', []), (''A'', [])]"
  have r: "remove_non_final ?cl = [(''B'', []), (''A'', [])]"
    by (simp add: declared_def)
  have e: "is_acyclic ?cl = Inr True"
    by (simp add: is_acyclic_def build_graph_def seed_queue_def)
  have "decl_edges ?cl = {}"
    by (auto simp: decl_edges_def effective_parents_def split: if_splits)
  then have dg: "dangling ?cl = {}" by (simp add: dangling_def)
  have s: "?cl = [(''A'', [''B'']), (''B'', [])] @ (''A'', []) # [] \<and> ''A'' \<notin> declared []"
    by (simp add: declared_def)
  note t = override_last_write_wins [of ?cl]
  from t s have l: "dict_get (build_parent_map ?cl []) ''A'' = Inr []" by blast
  from t dg have "is_acyclic (remove_non_final ?cl) = is_acyclic ?cl" by blast
  with e r have "is_acyclic [(''B'', []), (''A'', [])] = Inr True" by simp
  with l r dg e show ?thesis by simp
qed

text \<open>
  C4, counterexample. A declaration whose parents include its own identifier does not
  make the checker return false on all inputs: when a later declaration of the identifier
  supersedes it the checker returns true, and an undeclared parent makes the checker
  raise before any verdict.
\<close>

theorem self_loop_overridden_counterexample:
  "is_acyclic [(''A'', [''A'']), (''A'', [])] = Inr True \<and>
   is_acyclic [(''A'', [''A'', ''Z''])] = Inl (KeyError ''Z'')"
  by (simp add: is_acyclic_def build_graph_def seed_queue_def)

text \<open>
  C4, as amended. A declaration that is the last one of its identifier and whose parents
  include that identifier never lets the checker return true, and makes it return false
  whenever every effective parent is declared.
\<close>

theorem self_loop_rejected:
  assumes "cl = pre @ (x, ps) # post" and "x \<notin> declared post" and "x \<in> set ps"
  shows "is_acyclic cl \<noteq> Inr True \<and> (dangling cl = {} \<longrightarrow> is_acyclic cl = Inr False)"
proof -
  have "effective_parents cl x = Some ps"
    unfolding assms(1) using assms(2) by (rule effective_parents_last)
  then have cyc: "\<not> acyclic (decl_edges cl)"
    using assms(3) by (rule self_loop_cyclic)
  then have "is_acyclic cl \<noteq> Inr True" by (rule is_acyclic_cyclic)
  moreover have "is_acyclic cl = Inr False" if "dangling cl = {}"
  proof -
    from that have "snd ` decl_edges cl \<subseteq> declared cl" by (simp add: dangling_empty)
    from is_acyclic_correct [OF this] cyc show ?thesis by simp
  qed
  ultimately show ?thesis by simp
qed

theorem self_loop_rejected_witness:
  "dangling [(''root'', []), (''A'', [''root'', ''A''])] = {} \<and>
   is_acyclic [(''root'', []), (''A'', [''root'', ''A''])] = Inr False"
proof -
  let ?cl = "[(''root'', []), (''A'', [''root'', ''A''])]"
  have d: "dangling ?cl = {}"
    by (rule parents_declared_dangling) (simp add: declared_def)
  have "?cl = [(''root'', [])] @ (''A'', [''root'', ''A'']) # []"
    and "''A'' \<notin> declared []" and "''A'' \<in> set [''root'', ''A'']"
    by (simp_all add: declared_def)
  from self_loop_rejected [OF this] d show ?thesis by simp
qed

text \<open>
  C5. The verdict does not depend on the order of the declarations: for a sequence with
  pairwise distinct declared identifiers whose parents are all declared, every permutation
  yields the same result; and every permutation of a chain over distinct identifiers
  yields true.
\<close>

theorem order_independent:
  "(distinct (map fst cl) \<and> (\<forall>(c, ps)\<in>set cl. set ps \<subseteq> declared cl) \<and> mset cl' = mset cl
      \<longrightarrow> is_acyclic cl' = is_acyclic cl) \<and>
   (distinct xs \<and> xs \<noteq> [] \<and> mset cl'' = mset (chain xs) \<longrightarrow> is_acyclic cl'' = Inr True)"
proof (intro conjI impI)
  assume a: "distinct (map fst cl) \<and> (\<forall>(c, ps)\<in>set cl. set ps \<subseteq> declared cl) \<and> mset cl' = mset cl"
  then have d: "distinct (map fst cl)" and m: "mset cl' = mset cl"
    and c: "snd ` decl_edges cl \<subseteq> declared cl"
    using parents_declared_closed [of cl] by simp_all
  from permuted_graph [OF d m] have "decl_edges cl = decl_edges cl'" "declared cl = declared cl'"
    by simp_all
  then show "is_acyclic cl' = is_acyclic cl"
    using c by (rule is_acyclic_same_graph_closed)
next
  assume a: "distinct xs \<and> xs \<noteq> [] \<and> mset cl'' = mset (chain xs)"
  then have d: "distinct (map fst (chain xs))" and m: "mset cl'' = mset (chain xs)"
    by (simp_all add: map_fst_chain)
  from a have dx: "distinct xs" by simp
  from permuted_graph [OF d m]
  have "decl_edges (chain xs) = decl_edges cl''" "declared (chain xs) = declared cl''"
    by simp_all
  then have "is_acyclic cl'' = is_acyclic (chain xs)"
    using chain_closed [OF dx] by (rule is_acyclic_same_graph_closed)
  also have "\<dots> = Inr True"
    using is_acyclic_correct [OF chain_closed [OF dx]] chain_acyclic [OF dx] by simp
  finally show "is_acyclic cl'' = Inr True" .
qed

theorem order_independent_witness:
  "is_acyclic [(''B'', [''A'']), (''A'', [''B''])] = is_acyclic [(''A'', [''B'']), (''B'', [''A''])] \<and>
   chain [''a1'', ''b2'', ''c3''] = [(''a1'', []), (''b2'', [''a1'']), (''c3'', [''b2''])] \<and>
   is_acyclic [(''c3'', [''b2'']), (''a1'', []), (''b2'', [''a1''])] = Inr True"
proof -
  let ?cl = "[(''A'', [''B'']), (''B'', [''A''])]" and ?cl' = "[(''B'', [''A'']), (''A'', [''B''])]"
  let ?xs = "[''a1'', ''b2'', ''c3'']"
  let ?cl'' = "[(''c3'', [''b2'']), (''a1'', []), (''b2'', [''a1''])]"
  have ch: "chain ?xs = [(''a1'', []), (''b2'', [''a1'']), (''c3'', [''b2''])]"
    by (simp add: chain_def)
  have h1: "distinct (map fst ?cl) \<and> (\<forall>(c, ps)\<in>set ?cl. set ps \<subseteq> declared ?cl) \<and>
              mset ?cl' = mset ?cl"
    by (simp add: declared_def)
  have h2: "distinct ?xs \<and> ?xs \<noteq> [] \<and> mset ?cl'' = mset (chain ?xs)"
    unfolding ch by simp
  from order_independent [of ?cl ?cl' ?xs ?cl''] h1 h2 ch show ?thesis by blast
qed

text \<open>
  C7. Closing the cycle: a chain over distinct identifiers is accepted, and redirecting
  the parent list of its root to its last identifier makes the checker return false.
\<close>

theorem cycle_closing:
  assumes "distinct xs" and "xs \<noteq> []"
  shows "is_acyclic (chain xs) = Inr True \<and> is_acyclic (close_cycle xs) = Inr False"
proof
  show "is_acyclic (chain xs) = Inr True"
    using is_acyclic_correct [OF chain_closed [OF assms(1)]] chain_acyclic [OF assms(1)] by simp
  show "is_acyclic (close_cycle xs) = Inr False"
    using is_acyclic_correct [OF close_cycle_closed [OF assms]] close_cycle_cyclic [OF assms]
    by simp
qed

theorem cycle_closing_witness:
  "close_cycle [''a1'', ''b2'', ''c3''] = [(''a1'', [''c3'']), (''b2'', [''a1'']), (''c3'', [''b2''])] \<and>
   is_acyclic [(''a1'', []), (''b2'', [''a1'']), (''c3'', [''b2''])] = Inr True \<and>
   is_acyclic [(''a1'', [''c3'']), (''b2'', [''a1'']), (''c3'', [''b2''])] = Inr False"
proof -
  have c: "close_cycle [''a1'', ''b2'', ''c3'']
             = [(''a1'', [''c3'']), (''b2'', [''a1'']), (''c3'', [''b2''])]"
    and ch: "chain [''a1'', ''b2'', ''c3''] = [(''a1'', []), (''b2'', [''a1'']), (''c3'', [''b2''])]"
    by (simp_all add: close_cycle_def chain_def)
  have "distinct [''a1'', ''b2'', ''c3'']" and "[''a1'', ''b2'', ''c3''] \<noteq> []" by simp_all
  from cycle_closing [OF this] show ?thesis unfolding c ch by simp
qed

text \<open>
  C10. For an input whose parents are all declared, permuting the parents of a single
  declaration leaves the result unchanged.
\<close>

theorem parent_order_irrelevant:
  assumes "i < length cl" and "cl ! i = (c, ps)" and "mset ps' = mset ps"
    and "\<forall>(c, ps)\<in>set cl. set ps \<subseteq> declared cl"
  shows "is_acyclic (cl[i := (c, ps')]) = is_acyclic cl"
proof -
  from reorder_parents_rel [OF assms(1,2,3)]
  have "decl_edges cl = decl_edges (cl[i := (c, ps')])"
    and "declared cl = declared (cl[i := (c, ps')])"
    by (rule decl_edges_rel)+
  then show ?thesis
    using parents_declared_closed [OF assms(4)] by (rule is_acyclic_same_graph_closed)
qed

theorem parent_order_irrelevant_witness:
  "is_acyclic [(''root'', []), (''x'', [''root'']), (''y'', [''root'']), (''m'', [''y'', ''x''])]
     = is_acyclic [(''root'', []), (''x'', [''root'']), (''y'', [''root'']), (''m'', [''x'', ''y''])]"
proof -
  let ?cl = "[(''root'', []), (''x'', [''root'']), (''y'', [''root'']), (''m'', [''x'', ''y''])]"
  have "3 < length ?cl" and "?cl ! 3 = (''m'', [''x'', ''y''])"
    and "mset [''y'', ''x''] = mset [''x'', ''y'']"
    and "\<forall>(c, ps)\<in>set ?cl. set ps \<subseteq> declared ?cl"
    by (simp_all add: declared_def)
  from parent_order_irrelevant [OF this] show ?thesis by simp
qed

text \<open>
  C8. On every input whose parents are all declared the checker terminates with a boolean:
  the construction succeeds, and the work-queue loop reaches the empty queue within
  \<open>n\<close> iterations, \<open>n\<close> being the number of nodes, also when the graph has cycles
  or parallel edges. Each iteration adds one to \<^verbatim>\<open>visited_count\<close>, which is at most
  \<open>n\<close> at the exit, since no node enters the queue twice.
\<close>

theorem is_acyclic_terminates:
  assumes "\<forall>(c, ps)\<in>set cl. set ps \<subseteq> declared cl"
  shows "\<exists>n adj in_degree visited_count.
           build_graph (build_parent_map cl []) = Inr (n, adj, in_degree) \<and>
           n = card (declared cl) \<and>
           kahn_loop_bounded n adj (seed_queue n in_degree) in_degree 0 = Some (Inr visited_count) \<and>
           kahn_loop adj (seed_queue n in_degree) in_degree 0 = Inr visited_count \<and>
           visited_count \<le> n \<and>
           is_acyclic cl = Inr (visited_count = n)"
proof -
  define n where "n = card (declared cl)"
  from build_graph_ok [OF parents_declared_closed [OF assms]] obtain adj deg where
    bg: "build_graph (build_parent_map cl []) = Inr (n, adj, deg)"
    and ok: "graph_ok adj deg" and la: "length adj = n"
    unfolding n_def by blast
  from ok have g: "length deg = length adj"
    "\<forall>u<length adj. set (adj ! u) \<subseteq> {..<length adj}"
    "\<forall>v<length adj. deg ! v = int (indeg_from adj {..<length adj} v)"
    unfolding graph_ok_def by blast+
  from kahn_loop_correct [OF g] obtain cnt where
    kl: "kahn_loop adj (seed_queue n deg) deg 0 = Inr cnt" and le: "cnt \<le> n"
    unfolding la by blast
  have "kahn_loop_bounded n adj (seed_queue n deg) deg 0
          = Some (kahn_loop adj (seed_queue n deg) deg 0)"
    using kahn_inv_init [OF g] unfolding la by (rule kahn_loop_bounded_inv) (simp add: la)
  with kl have kb: "kahn_loop_bounded n adj (seed_queue n deg) deg 0 = Some (Inr cnt)" by simp
  have res: "is_acyclic cl = Inr (cnt = n)"
  proof (cases "cl = []")
    case True
    then have "n = 0" by (simp add: n_def declared_def)
    with le True show ?thesis by (simp add: is_acyclic_def)
  next
    case False
    then have "build_parent_map cl [] \<noteq> []" by (simp add: build_parent_map_Nil)
    then show ?thesis unfolding is_acyclic_def Let_def using bg kl by simp
  qed
  show ?thesis
    by (rule exI [of _ n], rule exI [of _ adj], rule exI [of _ deg], rule exI [of _ cnt])
      (intro conjI bg n_def kb kl le res)
qed

theorem is_acyclic_terminates_witness:
  "build_graph (build_parent_map [(''L'', [''R'', ''R'']), (''R'', []), (''A'', [''B'']), (''B'', [''A''])] [])
     = Inr (4, [[1, 1], [], [3], [2]], [0, 2, 1, 1]) \<and>
   kahn_loop_bounded 4 [[1, 1], [], [3], [2]] (seed_queue 4 [0, 2, 1, 1]) [0, 2, 1, 1] 0
     = Some (Inr 2) \<and>
   is_acyclic [(''L'', [''R'', ''R'']), (''R'', []), (''A'', [''B'']), (''B'', [''A''])] = Inr False"
proof -
  let ?cl = "[(''L'', [''R'', ''R'']), (''R'', []), (''A'', [''B'']), (''B'', [''A''])]"
  have h: "\<forall>(c, ps)\<in>set ?cl. set ps \<subseteq> declared ?cl" by (simp add: declared_def)
  have bg: "build_graph (build_parent_map ?cl []) = Inr (4, [[1, 1], [], [3], [2]], [0, 2, 1, 1])"
    by (simp add: build_graph_def)
  have kl: "kahn_loop [[1, 1], [], [3], [2]] (seed_queue 4 [0, 2, 1, 1]) [0, 2, 1, 1] 0 = Inr 2"
    by (simp add: seed_queue_def upt_rec)
  from is_acyclic_terminates [OF h] obtain n adj in_degree visited_count where
    "build_graph (build_parent_map ?cl []) = Inr (n, adj, in_degree)"
    and "kahn_loop_bounded n adj (seed_queue n in_degree) in_degree 0 = Some (Inr visited_count)"
    and "kahn_loop adj (seed_queue n in_degree) in_degree 0 = Inr visited_count"
    and "is_acyclic ?cl = Inr (visited_count = n)"
    by blast
  with bg kl show ?thesis by simp
qed

text \<open>
  C9. The checker does not mutate its argument. Over the store, a call leaves every object
  that existed before it as it was, whatever the store and the address passed, and also
  when the call raises: neither the outer list nor a parent list changes, and the call
  only adds objects. The model over the store is the checker: when the address holds
  declarations that denote \<open>cl\<close>, the call returns what \<open>is_acyclic cl\<close> returns. And
  every list stored in \<^verbatim>\<open>parent_map\<close> is one the call allocated, the copy of line 7.
\<close>

theorem is_acyclic_leaves_input:
  "take (length h) (snd (is_acyclic_h commit_list h)) = h \<and>
   (get_decls h commit_list = Inr decls \<and> denotes h decls cl \<longrightarrow>
      fst (is_acyclic_h commit_list h) = is_acyclic cl) \<and>
   (get_decls h commit_list = Inr decls \<and> build_parent_map_h decls [] h = (Inr parent_map, h1) \<longrightarrow>
      (\<forall>d\<in>set parent_map. length h \<le> snd d))"
proof (intro conjI impI)
  obtain r h' where e: "is_acyclic_h commit_list h = (r, h')"
    by (cases "is_acyclic_h commit_list h")
  from is_acyclic_h_frame [OF e] show "take (length h) (snd (is_acyclic_h commit_list h)) = h"
    by (simp add: e frame_def)
next
  assume "get_decls h commit_list = Inr decls \<and> denotes h decls cl"
  then show "fst (is_acyclic_h commit_list h) = is_acyclic cl"
    by (simp add: is_acyclic_h_refines)
next
  assume a: "get_decls h commit_list = Inr decls \<and>
             build_parent_map_h decls [] h = (Inr parent_map, h1)"
  then have bp: "build_parent_map_h decls [] h = (Inr parent_map, h1)" by simp
  show "\<forall>d\<in>set parent_map. length h \<le> snd d"
    by (rule build_parent_map_h_fresh [OF bp]) simp_all
qed

theorem is_acyclic_leaves_input_witness:
  "is_acyclic_h 2 [StrList [''B''], StrList [], DeclList [(''A'', 0), (''B'', 1)]]
     = (Inr True, [StrList [''B''], StrList [], DeclList [(''A'', 0), (''B'', 1)],
                   StrList [''B''], StrList [], NatList [1], NatList [], IntList [0, 0]]) \<and>
   is_acyclic [(''A'', [''B'']), (''B'', [])] = Inr True"
proof -
  let ?h = "[StrList [''B''], StrList [], DeclList [(''A'', 0), (''B'', 1)]]"
  let ?ds = "[(''A'', 0::nat), (''B'', 1)]"
  let ?cl = "[(''A'', [''B'']), (''B'', [])]"
  have ev: "is_acyclic_h 2 ?h
     = (Inr True, [StrList [''B''], StrList [], DeclList [(''A'', 0), (''B'', 1)],
                   StrList [''B''], StrList [], NatList [1], NatList [], IntList [0, 0]])"
    by (simp add: is_acyclic_h_def get_decls_def get_strs_def get_nats_def get_ints_def
          alloc_def Let_def seed_queue_h_def seed_queue_def)
  have gd: "get_decls ?h 2 = Inr ?ds" by (simp add: get_decls_def)
  have den: "denotes ?h ?ds ?cl" by (simp add: denotes_def get_strs_def)
  from is_acyclic_leaves_input [of ?h 2 ?ds ?cl] gd den
  have "fst (is_acyclic_h 2 ?h) = is_acyclic ?cl" by blast
  with ev show ?thesis by simp
qed

end
